theory Spec2Isabelle
  imports Complex_Main "HOL-Library.AList" "HOL-Library.Multiset"
    "HOL-Library.Product_Lexorder" "HOL-Library.Sublist"
begin

section \<open>Trend collection and ranking (scraper.py)\<close>

text \<open>
  A shallow embedding of the trend scraper's scoring, seasonal fallback and
  orchestrator (\<^verbatim>\<open>TrendScraper._score\<close>, \<^verbatim>\<open>_categorize\<close>, \<^verbatim>\<open>source_seasonal\<close>,
  \<^verbatim>\<open>collect\<close>).

  Conventions of the model.
  \<^item> A Python \<^verbatim>\<open>str\<close> is a \<^typ>\<open>string\<close>; one \<^typ>\<open>char\<close> stands for one code point
    below 256. On this range white space is that of \<^verbatim>\<open>str.isspace\<close> (codes 9 to 13,
    28 to 32, 133 and 160) and \<^verbatim>\<open>lower\<close> maps \<^verbatim>\<open>A\<close>..\<^verbatim>\<open>Z\<close> and the capitals 192 to
    222 (without 215), as \<^verbatim>\<open>str.lower\<close> does. \<^verbatim>\<open>title\<close> is only applied to category
    names and is modelled on the letters \<^verbatim>\<open>A\<close>..\<^verbatim>\<open>Z\<close>.
  \<^item> A Python \<^verbatim>\<open>int\<close> is an \<^typ>\<open>int\<close>.
  \<^item> \<^verbatim>\<open>random.randint(a, b)\<close> takes the value drawn by the generator as an explicit
    argument (its entropy).
  \<^item> A \<^verbatim>\<open>dict\<close> is an association list in insertion order; storing under a key that
    is present replaces the value where it stands (\<^const>\<open>AList.update\<close>).
  \<^item> Leading underscores of Python names are dropped (\<^verbatim>\<open>_score\<close> is \<open>score\<close>).
\<close>

subsection \<open>Strings\<close>

definition isspace :: "char \<Rightarrow> bool" where
  "isspace c = (c \<in> set [CHR 0x09, CHR 0x0A, CHR 0x0B, CHR 0x0C, CHR 0x0D,
                           CHR 0x1C, CHR 0x1D, CHR 0x1E, CHR 0x1F, CHR '' '',
                           CHR 0x85, CHR 0xA0])"

definition lower_char :: "char \<Rightarrow> char" where
  "lower_char c =
     (case map_of
        (zip (''ABCDEFGHIJKLMNOPQRSTUVWXYZ'' @
           [CHR 0xC0, CHR 0xC1, CHR 0xC2, CHR 0xC3, CHR 0xC4, CHR 0xC5, CHR 0xC6, CHR 0xC7,
            CHR 0xC8, CHR 0xC9, CHR 0xCA, CHR 0xCB, CHR 0xCC, CHR 0xCD, CHR 0xCE, CHR 0xCF,
            CHR 0xD0, CHR 0xD1, CHR 0xD2, CHR 0xD3, CHR 0xD4, CHR 0xD5, CHR 0xD6, CHR 0xD8,
            CHR 0xD9, CHR 0xDA, CHR 0xDB, CHR 0xDC, CHR 0xDD, CHR 0xDE])
          (''abcdefghijklmnopqrstuvwxyz'' @
           [CHR 0xE0, CHR 0xE1, CHR 0xE2, CHR 0xE3, CHR 0xE4, CHR 0xE5, CHR 0xE6, CHR 0xE7,
            CHR 0xE8, CHR 0xE9, CHR 0xEA, CHR 0xEB, CHR 0xEC, CHR 0xED, CHR 0xEE, CHR 0xEF,
            CHR 0xF0, CHR 0xF1, CHR 0xF2, CHR 0xF3, CHR 0xF4, CHR 0xF5, CHR 0xF6, CHR 0xF8,
            CHR 0xF9, CHR 0xFA, CHR 0xFB, CHR 0xFC, CHR 0xFD, CHR 0xFE])) c of
        Some d \<Rightarrow> d | None \<Rightarrow> c)"

definition upper_char :: "char \<Rightarrow> char" where
  "upper_char c =
     (case map_of (zip ''abcdefghijklmnopqrstuvwxyz'' ''ABCDEFGHIJKLMNOPQRSTUVWXYZ'') c of
        Some d \<Rightarrow> d | None \<Rightarrow> c)"

definition is_lower :: "char \<Rightarrow> bool" where
  "is_lower c = (c \<in> set ''abcdefghijklmnopqrstuvwxyz'')"

definition is_upper :: "char \<Rightarrow> bool" where
  "is_upper c = (c \<in> set ''ABCDEFGHIJKLMNOPQRSTUVWXYZ'')"

text \<open>\<^verbatim>\<open>s.lower()\<close> and \<^verbatim>\<open>s.strip()\<close>.\<close>

definition lower :: "string \<Rightarrow> string" where
  "lower s = map lower_char s"

definition strip :: "string \<Rightarrow> string" where
  "strip s = rev (dropWhile isspace (rev (dropWhile isspace s)))"

text \<open>
  \<^verbatim>\<open>s.split()\<close>: the maximal runs of characters that are not white space. The first
  argument is the word being read.
\<close>

fun split_ws :: "string \<Rightarrow> string \<Rightarrow> string list" where
  "split_ws cur [] = (if cur = [] then [] else [cur])"
| "split_ws cur (c # cs) =
     (if isspace c then (if cur = [] then split_ws [] cs else cur # split_ws [] cs)
      else split_ws (cur @ [c]) cs)"

definition py_split :: "string \<Rightarrow> string list" where
  "py_split s = split_ws [] s"

text \<open>\<^verbatim>\<open>s.title()\<close>: the flag says whether the previous character was a letter.\<close>

fun title_from :: "bool \<Rightarrow> string \<Rightarrow> string" where
  "title_from prev [] = []"
| "title_from prev (c # cs) =
     (if is_lower c then (if prev then c else upper_char c) # title_from True cs
      else if is_upper c then (if prev then lower_char c else c) # title_from True cs
      else c # title_from False cs)"

definition title :: "string \<Rightarrow> string" where
  "title s = title_from False s"

text \<open>\<^verbatim>\<open>t in k\<close> on strings: \<open>t\<close> occurs in \<open>k\<close> as a contiguous piece.\<close>

fun startswith :: "string \<Rightarrow> string \<Rightarrow> bool" where
  "startswith k [] = True"
| "startswith [] (t # ts) = False"
| "startswith (c # cs) (t # ts) = (c = t \<and> startswith cs ts)"

fun str_in :: "string \<Rightarrow> string \<Rightarrow> bool" where
  "str_in t [] = (t = [])"
| "str_in t (c # cs) = (startswith (c # cs) t \<or> str_in t cs)"

text \<open>\<^verbatim>\<open>any(t in k for t in xs)\<close>.\<close>

fun any_in :: "string list \<Rightarrow> string \<Rightarrow> bool" where
  "any_in [] k = False"
| "any_in (t # ts) k = (str_in t k \<or> any_in ts k)"

subsection \<open>Utilities\<close>

text \<open>\<^verbatim>\<open>clamp(v, lo, hi) = max(lo, min(hi, v))\<close>.\<close>

definition clamp :: "int \<Rightarrow> int \<Rightarrow> int \<Rightarrow> int" where
  "clamp v lo hi = max lo (min hi v)"

text \<open>
  \<^verbatim>\<open>random.randint(a, b)\<close>, as a function of the generator's draw \<open>e\<close>: every result
  lies in \<open>[a, b]\<close> and every value of \<open>[a, b]\<close> is the result of some draw.
\<close>

definition randint :: "int \<Rightarrow> int \<Rightarrow> int \<Rightarrow> int" where
  "randint a b e = a + e mod (b - a + 1)"

subsection \<open>Categorizer and scorer\<close>

definition categorize :: "string \<Rightarrow> string" where
  "categorize keyword =
     (let k = lower keyword in
      if any_in [''ai'', ''artificial'', ''machine learning'', ''ml'', ''blockchain'', ''saas'',
                 ''api'', ''cloud'', ''vr'', ''ar'', ''3d'', ''data''] k
      then ''technology''
      else if any_in [''business'', ''corporate'', ''office'', ''startup'', ''strategy'',
                      ''marketing'', ''revenue'', ''meeting''] k
      then ''business''
      else if any_in [''medical'', ''health'', ''healthcare'', ''doctor'', ''nurse'', ''patient'',
                      ''therapy'', ''vaccine'', ''fitness'', ''wellness''] k
      then ''medical''
      else if any_in [''education'', ''school'', ''student'', ''teacher'', ''university'',
                      ''learning'', ''research''] k
      then ''education''
      else if any_in [''food'', ''cuisine'', ''cooking'', ''meal'', ''recipe'', ''kitchen'',
                      ''coffee'', ''tea'', ''restaurant'', ''diet'', ''vegan'', ''plant''] k
      then ''food''
      else if any_in [''nature'', ''forest'', ''mountain'', ''ocean'', ''sea'', ''beach'', ''sky'',
                      ''wildlife'', ''green'', ''sustainable'', ''climate''] k
      then ''nature''
      else if any_in [''lifestyle'', ''family'', ''people'', ''beauty'', ''fashion'', ''home'',
                      ''interior'', ''yoga'', ''meditation''] k
      then ''lifestyle''
      else ''general'')"

text \<open>The table of base scores of \<^verbatim>\<open>_score\<close>, with its default 70.\<close>

definition base_score :: "string \<Rightarrow> int" where
  "base_score src =
     (case map_of [(''pexels_api'', 85), (''unsplash_api'', 84), (''unsplash_topics'', 78),
                   (''pytrends'', 88), (''seasonal'', 72)] src of
        Some b \<Rightarrow> b | None \<Rightarrow> 70)"

text \<open>
  \<^verbatim>\<open>_score(keyword, source)\<close>; the last argument is the draw behind
  \<^verbatim>\<open>random.randint(-2, 2)\<close>.
\<close>

definition score :: "string \<Rightarrow> string \<Rightarrow> int \<Rightarrow> int" where
  "score keyword src e =
     (let base = base_score src;
          kl = lower keyword;
          base = (if any_in [''ai'', ''artificial intelligence'', ''machine learning'', ''3d''] kl
                  then base + 8
                  else if any_in [''sustainable'', ''green'', ''eco'', ''renewable''] kl
                  then base + 6
                  else if any_in [''remote work'', ''digital transformation'', ''hybrid''] kl
                  then base + 6
                  else if any_in [''health'', ''wellness'', ''mental health''] kl
                  then base + 5
                  else if any_in [''diversity'', ''inclusion''] kl
                  then base + 4
                  else base);
          wc = length (py_split keyword);
          base = (if wc = 2 then base + 3 else if wc = 3 then base + 2 else base);
          base = (if length keyword > 40 then base - 6
                  else if length keyword > 30 then base - 3
                  else base)
      in clamp (base + randint (- 2) 2 e) 50 99)"

subsection \<open>Records and sorting\<close>

text \<open>The dictionary every adapter appends: \<^verbatim>\<open>{keyword, popularity, category, source}\<close>.\<close>

record trend =
  keyword :: string
  popularity :: int
  category :: string
  source :: string

text \<open>An element of \<^verbatim>\<open>top_keywords\<close>: \<^verbatim>\<open>{"keyword": .., "popularity": ..}\<close>.\<close>

record top_keyword =
  tk_keyword :: string
  tk_popularity :: int

text \<open>
  An entry of \<^verbatim>\<open>popular_categories\<close>, and the same entry while \<^verbatim>\<open>collect\<close> builds it,
  when it still carries \<^verbatim>\<open>total_popularity\<close>. \<^verbatim>\<open>avg_popularity\<close> is a Python float, the
  quotient of two integers; the model keeps the exact quotient.
\<close>

record category_summary =
  name :: string
  count_n :: int
  avg_popularity :: rat
  top_keywords :: "top_keyword list"

record category_entry = category_summary +
  total_popularity :: int

text \<open>
  \<^verbatim>\<open>sorted(xs, key=key, reverse=True)\<close>: the list is reversed, sorted by a stable sort
  and reversed again, which is how the interpreter keeps a descending sort stable.
\<close>

definition sorted_reverse :: "('a \<Rightarrow> 'k::linorder) \<Rightarrow> 'a list \<Rightarrow> 'a list" where
  "sorted_reverse key xs = rev (sort_key key (rev xs))"

subsection \<open>Seasonal fallback\<close>

definition season_names :: "string list" where
  "season_names = [''winter'', ''spring'', ''summer'', ''autumn'']"

definition buckets :: "string list" where
  "buckets = [''business'', ''lifestyle'', ''nature'', ''technology'', ''food'', ''education'']"

text \<open>
  \<^verbatim>\<open>source_seasonal()\<close>, as a function of the month of \<^verbatim>\<open>datetime.now()\<close> and of the
  draws behind the calls of \<^verbatim>\<open>random.randint(70, 88)\<close>, one for each bucket.
\<close>

definition source_seasonal :: "int \<Rightarrow> (nat \<Rightarrow> int) \<Rightarrow> trend list" where
  "source_seasonal month draws =
     (let season = season_names ! nat (((month - 1) div 3) mod 4) in
      map (\<lambda>(i, b).
            let kw = season @ '' '' @ b in
            \<lparr>keyword = kw, popularity = randint 70 88 (draws i),
             category = categorize kw, source = ''seasonal''\<rparr>)
          (enumerate 0 buckets))"

subsection \<open>Orchestrator: gathering the adapters\<close>

text \<open>
  What \<^verbatim>\<open>collect\<close> sees of one submitted adapter: it returned a list, it raised an
  exception (a subclass of \<^verbatim>\<open>Exception\<close>), or it was still running when the 180 seconds
  of \<^verbatim>\<open>as_completed(futs, timeout=180)\<close> were over. A future yielded by
  \<^verbatim>\<open>as_completed\<close> is done, so \<^verbatim>\<open>fut.result(timeout=60)\<close> returns or raises at once.
\<close>

datatype outcome = Returned "trend list" | Raised | Pending

datatype error = TimeoutError | ValueError

definition sources :: "string list" where
  "sources = [''pexels_api'', ''unsplash'', ''pytrends'']"

text \<open>
  An execution gives the three submitted adapters in the order in which they complete,
  each with its outcome.
\<close>

definition completion_order :: "(string \<times> outcome) list \<Rightarrow> bool" where
  "completion_order completions = (mset (map fst completions) = mset sources)"

text \<open>
  The loop over \<^verbatim>\<open>as_completed\<close>, on the pair \<^verbatim>\<open>(all_trends, used_sources)\<close>. The
  \<^verbatim>\<open>try\<close> is inside the body of the loop: an exception of \<^verbatim>\<open>fut.result\<close> is caught
  and logged there, while the \<^verbatim>\<open>TimeoutError\<close> that the iterator raises for a future
  still pending is raised by the \<^verbatim>\<open>for\<close> statement itself, outside the \<^verbatim>\<open>try\<close>.
\<close>

fun gather :: "(string \<times> outcome) list \<Rightarrow> trend list \<times> string list
    \<Rightarrow> error + trend list \<times> string list" where
  "gather [] acc = Inr acc"
| "gather ((nm, Returned res) # rest) (all_trends, used_sources) =
     (if res \<noteq> [] then gather rest (all_trends @ res, used_sources @ [nm])
      else gather rest (all_trends, used_sources))"
| "gather ((nm, Raised) # rest) acc = gather rest acc"
| "gather ((nm, Pending) # rest) acc = Inl TimeoutError"

subsection \<open>Orchestrator: filter and deduplication\<close>

definition source_priority :: "string \<Rightarrow> int" where
  "source_priority src =
     (case map_of [(''pytrends'', 9), (''pexels_api'', 8), (''unsplash_api'', 7),
                   (''unsplash_topics'', 6), (''seasonal'', 4)] src of
        Some p \<Rightarrow> p | None \<Rightarrow> 0)"

text \<open>\<^verbatim>\<open>re.search(r'_{2,}', kw)\<close> finds a match.\<close>

fun underscore_run :: "string \<Rightarrow> bool" where
  "underscore_run (a # b # cs) = ((a = CHR ''_'' \<and> b = CHR ''_'') \<or> underscore_run (b # cs))"
| "underscore_run cs = False"

text \<open>One turn of the loop \<^verbatim>\<open>for t in all_trends\<close> on the dictionary \<^verbatim>\<open>unique\<close>.\<close>

definition dedup_step :: "(string \<times> trend) list \<Rightarrow> trend \<Rightarrow> (string \<times> trend) list" where
  "dedup_step unique t =
     (let kw = lower (strip (keyword t)) in
      if \<not> (3 \<le> length kw \<and> length kw \<le> 50) then unique
      else if underscore_run kw then unique
      else (case map_of unique kw of
              None \<Rightarrow> AList.update kw t unique
            | Some cur \<Rightarrow>
                let cp = source_priority (source cur);
                    np = source_priority (source t)
                in if popularity t > popularity cur \<or>
                      (popularity t = popularity cur \<and> np > cp)
                   then AList.update kw t unique
                   else unique))"

definition dedup :: "trend list \<Rightarrow> (string \<times> trend) list" where
  "dedup all_trends = foldl dedup_step [] all_trends"

subsection \<open>Orchestrator: ranking\<close>

text \<open>The sort key \<^verbatim>\<open>(x["popularity"], len(x["keyword"].split()))\<close>.\<close>

definition rank_key :: "trend \<Rightarrow> int \<times> nat" where
  "rank_key x = (popularity x, length (py_split (keyword x)))"

definition ranked :: "(string \<times> trend) list \<Rightarrow> trend list" where
  "ranked unique = sorted_reverse rank_key (map snd unique)"

text \<open>\<^verbatim>\<open>top_trends\<close> of a merged list \<^verbatim>\<open>all_trends\<close>.\<close>

definition top_trends :: "trend list \<Rightarrow> trend list" where
  "top_trends all_trends = take 20 (ranked (dedup all_trends))"

subsection \<open>Orchestrator: category summary\<close>

definition new_entry :: "string \<Rightarrow> category_entry" where
  "new_entry cat =
     \<lparr>name = title cat, count_n = 0, avg_popularity = 0, top_keywords = [],
      total_popularity = 0\<rparr>"

text \<open>
  One turn of \<^verbatim>\<open>for tr in top_trends\<close>: \<^verbatim>\<open>setdefault\<close> leaves an entry that is present
  and appends a fresh one otherwise, and the entry is then updated where it stands.
\<close>

definition add_trend :: "(string \<times> category_entry) list \<Rightarrow> trend
    \<Rightarrow> (string \<times> category_entry) list" where
  "add_trend categories tr =
     (let cat = category tr;
          c = (case map_of categories cat of Some c \<Rightarrow> c | None \<Rightarrow> new_entry cat)
      in AList.update cat
           (c\<lparr>count_n := count_n c + 1,
              total_popularity := total_popularity c + popularity tr,
              top_keywords := top_keywords c @
                [\<lparr>tk_keyword = keyword tr, tk_popularity = popularity tr\<rparr>]\<rparr>)
           categories)"

text \<open>
  The body of \<^verbatim>\<open>for c in categories.values()\<close>: the average, the five best keywords,
  and \<^verbatim>\<open>del c["total_popularity"]\<close>.
\<close>

definition finish_entry :: "category_entry \<Rightarrow> category_summary" where
  "finish_entry c =
     \<lparr>name = name c, count_n = count_n c,
      avg_popularity = of_int (total_popularity c) / of_int (max 1 (count_n c)),
      top_keywords = take 5 (sorted_reverse tk_popularity (top_keywords c))\<rparr>"

definition categories_of :: "trend list \<Rightarrow> (string \<times> category_summary) list" where
  "categories_of tops = map (\<lambda>(cat, c). (cat, finish_entry c)) (foldl add_trend [] tops)"

subsection \<open>Orchestrator: the result\<close>

text \<open>
  The dictionary that \<^verbatim>\<open>collect\<close> returns, without \<^verbatim>\<open>scrape_date\<close> and
  \<^verbatim>\<open>scraping_duration\<close>, which read the clock.
\<close>

record collection_result =
  sources_used :: "string list"
  total_keywords_found :: nat
  trending_searches :: "trend list"
  popular_categories :: "category_summary list"
  seasonal_trends :: "trend list"

text \<open>
  \<^verbatim>\<open>collect(max_workers)\<close> on one execution: the adapters in their order of completion,
  the month and the draws of the seasonal fallback. \<^verbatim>\<open>ThreadPoolExecutor\<close> raises
  \<^verbatim>\<open>ValueError\<close> for \<^verbatim>\<open>max_workers <= 0\<close>.
\<close>

definition collect :: "int \<Rightarrow> (string \<times> outcome) list \<Rightarrow> int \<Rightarrow> (nat \<Rightarrow> int)
    \<Rightarrow> error + collection_result" where
  "collect max_workers completions month draws =
     (if max_workers \<le> 0 then Inl ValueError
      else case gather completions ([], []) of
        Inl e \<Rightarrow> Inl e
      | Inr (gathered, used) \<Rightarrow>
          let seasonals = source_seasonal month draws;
              all_trends = gathered @ seasonals;
              used_sources = (if ''seasonal'' \<notin> set used then used @ [''seasonal''] else used);
              tops = top_trends all_trends
          in Inr \<lparr>sources_used = used_sources,
                  total_keywords_found = length all_trends,
                  trending_searches = tops,
                  popular_categories =
                    sorted_reverse avg_popularity (map snd (categories_of tops)),
                  seasonal_trends = filter (\<lambda>t. source t = ''seasonal'') tops\<rparr>)"

subsection \<open>Notions used in the statements\<close>

text \<open>
  Names for the parts of \<^const>\<open>dedup_step\<close>: the key \<^verbatim>\<open>kw\<close> of a record, the two tests
  that let a key through, and the test under which the incoming record \<open>t\<close> replaces the
  stored record \<open>cur\<close>.
\<close>

definition normalized :: "trend \<Rightarrow> string" where
  "normalized t = lower (strip (keyword t))"

definition accepted :: "string \<Rightarrow> bool" where
  "accepted kw = (3 \<le> length kw \<and> length kw \<le> 50 \<and> \<not> underscore_run kw)"

definition beats :: "trend \<Rightarrow> trend \<Rightarrow> bool" where
  "beats t cur =
     (popularity t > popularity cur \<or>
      (popularity t = popularity cur \<and>
       source_priority (source t) > source_priority (source cur)))"

text \<open>
  The record that the specification lets survive under a key \<open>k\<close>: among the records
  of the list with this key, in the order of the list, the first that no record with
  this key beats.
\<close>

definition candidates :: "string \<Rightarrow> trend list \<Rightarrow> trend list" where
  "candidates k ts = filter (\<lambda>t. normalized t = k) ts"

definition unbeaten :: "string \<Rightarrow> trend list \<Rightarrow> trend list" where
  "unbeaten k ts =
     filter (\<lambda>t. list_all (\<lambda>u. \<not> beats u t) (candidates k ts)) (candidates k ts)"

definition survivor :: "string \<Rightarrow> trend list \<Rightarrow> trend option" where
  "survivor k ts =
     (if accepted k then (case unbeaten k ts of [] \<Rightarrow> None | v # _ \<Rightarrow> Some v) else None)"

text \<open>The elements of a list in the order of their first occurrence.\<close>

definition first_seen :: "'a list \<Rightarrow> 'a list" where
  "first_seen xs = rev (remdups (rev xs))"

text \<open>
  The summary that the specification gives for a category of the ranked list: the
  number of its records, the arithmetic mean of their popularity, and its five most
  popular keywords in descending order of popularity.
\<close>

definition group_of :: "string \<Rightarrow> trend list \<Rightarrow> trend list" where
  "group_of cat tops = filter (\<lambda>t. category t = cat) tops"

definition keyword_pair :: "trend \<Rightarrow> top_keyword" where
  "keyword_pair t = \<lparr>tk_keyword = keyword t, tk_popularity = popularity t\<rparr>"

definition summary_spec :: "trend list \<Rightarrow> string \<Rightarrow> category_summary" where
  "summary_spec tops cat =
     (let grp = group_of cat tops in
      \<lparr>name = title cat,
       count_n = int (length grp),
       avg_popularity = of_int (sum_list (map popularity grp)) / of_int (int (length grp)),
       top_keywords = take 5 (sorted_reverse tk_popularity (map keyword_pair grp))\<rparr>)"

text \<open>The entry of a category when the loop over \<open>top_trends\<close> is through.\<close>

definition entry_of :: "trend list \<Rightarrow> string \<Rightarrow> category_entry" where
  "entry_of tops cat =
     \<lparr>name = title cat, count_n = int (length (group_of cat tops)), avg_popularity = 0,
      top_keywords = map keyword_pair (group_of cat tops),
      total_popularity = sum_list (map popularity (group_of cat tops))\<rparr>"

text \<open>The value of \<open>popular_categories\<close> for a ranked list.\<close>

definition ranked_categories :: "trend list \<Rightarrow> category_summary list" where
  "ranked_categories tops = sorted_reverse avg_popularity (map snd (categories_of tops))"

text \<open>
  The list that one adapter returns in the example execution of the last property:
  twenty records of popularity 99.
\<close>

definition busy_run :: "trend list" where
  "busy_run =
     [\<lparr>keyword = ''solar panel'', popularity = 99, category = ''general'', source = ''pexels_api''\<rparr>,
      \<lparr>keyword = ''wind farm'', popularity = 99, category = ''general'', source = ''pexels_api''\<rparr>,
      \<lparr>keyword = ''city skyline'', popularity = 99, category = ''general'', source = ''pexels_api''\<rparr>,
      \<lparr>keyword = ''night market'', popularity = 99, category = ''general'', source = ''pexels_api''\<rparr>,
      \<lparr>keyword = ''paper craft'', popularity = 99, category = ''general'', source = ''pexels_api''\<rparr>,
      \<lparr>keyword = ''stone bridge'', popularity = 99, category = ''general'', source = ''pexels_api''\<rparr>,
      \<lparr>keyword = ''river delta'', popularity = 99, category = ''general'', source = ''pexels_api''\<rparr>,
      \<lparr>keyword = ''snow peak'', popularity = 99, category = ''general'', source = ''pexels_api''\<rparr>,
      \<lparr>keyword = ''desert road'', popularity = 99, category = ''general'', source = ''pexels_api''\<rparr>,
      \<lparr>keyword = ''coral reef'', popularity = 99, category = ''general'', source = ''pexels_api''\<rparr>,
      \<lparr>keyword = ''glass tower'', popularity = 99, category = ''general'', source = ''pexels_api''\<rparr>,
      \<lparr>keyword = ''wood cabin'', popularity = 99, category = ''general'', source = ''pexels_api''\<rparr>,
      \<lparr>keyword = ''street art'', popularity = 99, category = ''general'', source = ''pexels_api''\<rparr>,
      \<lparr>keyword = ''rain window'', popularity = 99, category = ''general'', source = ''pexels_api''\<rparr>,
      \<lparr>keyword = ''sand dune'', popularity = 99, category = ''general'', source = ''pexels_api''\<rparr>,
      \<lparr>keyword = ''palm grove'', popularity = 99, category = ''general'', source = ''pexels_api''\<rparr>,
      \<lparr>keyword = ''iron gate'', popularity = 99, category = ''general'', source = ''pexels_api''\<rparr>,
      \<lparr>keyword = ''silk scarf'', popularity = 99, category = ''general'', source = ''pexels_api''\<rparr>,
      \<lparr>keyword = ''clay pot'', popularity = 99, category = ''general'', source = ''pexels_api''\<rparr>,
      \<lparr>keyword = ''moon rise'', popularity = 99, category = ''general'', source = ''pexels_api''\<rparr>]"

text \<open>
  A ranked list of twenty records, twelve of the category technology and eight of the
  category business, for the example of the category summary.
\<close>

definition split_run :: "trend list" where
  "split_run =
     [\<lparr>keyword = ''ai chip'', popularity = 99, category = ''technology'', source = ''pexels_api''\<rparr>,
      \<lparr>keyword = ''cloud data'', popularity = 98, category = ''technology'', source = ''pexels_api''\<rparr>,
      \<lparr>keyword = ''3d render'', popularity = 97, category = ''technology'', source = ''pexels_api''\<rparr>,
      \<lparr>keyword = ''office desk'', popularity = 97, category = ''business'', source = ''pexels_api''\<rparr>,
      \<lparr>keyword = ''vr headset'', popularity = 96, category = ''technology'', source = ''pexels_api''\<rparr>,
      \<lparr>keyword = ''ai robot'', popularity = 95, category = ''technology'', source = ''pexels_api''\<rparr>,
      \<lparr>keyword = ''startup pitch'', popularity = 95, category = ''business'', source = ''pexels_api''\<rparr>,
      \<lparr>keyword = ''data center'', popularity = 94, category = ''technology'', source = ''pexels_api''\<rparr>,
      \<lparr>keyword = ''machine learning'', popularity = 93, category = ''technology'', source = ''pexels_api''\<rparr>,
      \<lparr>keyword = ''business plan'', popularity = 93, category = ''business'', source = ''pexels_api''\<rparr>,
      \<lparr>keyword = ''blockchain node'', popularity = 92, category = ''technology'', source = ''pexels_api''\<rparr>,
      \<lparr>keyword = ''saas team'', popularity = 91, category = ''technology'', source = ''pexels_api''\<rparr>,
      \<lparr>keyword = ''team meeting'', popularity = 91, category = ''business'', source = ''pexels_api''\<rparr>,
      \<lparr>keyword = ''api code'', popularity = 90, category = ''technology'', source = ''pexels_api''\<rparr>,
      \<lparr>keyword = ''ai art'', popularity = 89, category = ''technology'', source = ''pexels_api''\<rparr>,
      \<lparr>keyword = ''marketing chart'', popularity = 89, category = ''business'', source = ''pexels_api''\<rparr>,
      \<lparr>keyword = ''cloud server'', popularity = 88, category = ''technology'', source = ''pexels_api''\<rparr>,
      \<lparr>keyword = ''corporate tower'', popularity = 87, category = ''business'', source = ''pexels_api''\<rparr>,
      \<lparr>keyword = ''revenue graph'', popularity = 85, category = ''business'', source = ''pexels_api''\<rparr>,
      \<lparr>keyword = ''strategy board'', popularity = 83, category = ''business'', source = ''pexels_api''\<rparr>]"

section \<open>Properties\<close>

subsection \<open>Utilities\<close>

lemma clamp_bounds:
  assumes "lo \<le> hi"
  shows "lo \<le> clamp v lo hi" and "clamp v lo hi \<le> hi"
  using assms by (simp_all add: clamp_def)

lemma randint_bounds:
  assumes "a \<le> b"
  shows "a \<le> randint a b e" and "randint a b e \<le> b"
proof -
  have pos: "0 < b - a + 1" using assms by simp
  have "0 \<le> e mod (b - a + 1)" using pos by simp
  moreover have "e mod (b - a + 1) < b - a + 1" using pos by (rule pos_mod_bound)
  ultimately show "a \<le> randint a b e" and "randint a b e \<le> b"
    by (simp_all add: randint_def)
qed

lemma randint_onto:
  assumes "a \<le> v" and "v \<le> b"
  shows "randint a b (v - a) = v"
  using assms by (simp add: randint_def)

subsection \<open>Scorer bounds\<close>

text \<open>
  Claim C8. For every keyword, every source and every draw of the jitter (every value of
  \<open>[-2, 2]\<close> and no other is produced by \<^const>\<open>randint\<close>), \<open>_score\<close> returns an integer
  between 50 and 99 inclusive.
\<close>

theorem score_in_range:
  "50 \<le> score kw src e \<and> score kw src e \<le> 99"
  unfolding score_def Let_def by (simp add: clamp_bounds)

theorem score_in_range_witness:
  "50 \<le> score ''remote work'' ''pytrends'' 4 \<and> score ''remote work'' ''pytrends'' 4 \<le> 99"
  using score_in_range [of "''remote work''" "''pytrends''" 4] by simp

subsection \<open>Seasonal fallback\<close>

lemma season_index:
  assumes "1 \<le> month" and "month \<le> 12"
  shows "nat (((month - 1) div 3) mod 4) =
    (if month \<le> 3 then 0 else if month \<le> 6 then 1 else if month \<le> 9 then 2 else 3)"
  using assms by auto

lemma source_seasonal_unfold:
  "source_seasonal month draws =
     map (\<lambda>(i, b). \<lparr>keyword = season_names ! nat (((month - 1) div 3) mod 4) @ '' '' @ b,
                     popularity = randint 70 88 (draws i),
                     category = categorize (season_names ! nat (((month - 1) div 3) mod 4) @ '' '' @ b),
                     source = ''seasonal''\<rparr>)
         [(0, ''business''), (1, ''lifestyle''), (2, ''nature''), (3, ''technology''),
          (4, ''food''), (5, ''education'')]"
  by (simp add: source_seasonal_def buckets_def Let_def eval_nat_numeral)

text \<open>
  Claim C6. In a month from 1 to 12, \<open>source_seasonal\<close> returns exactly six records, one
  for each of the buckets business, lifestyle, nature, technology, food and education in
  this order; the keyword of each is the season, a space and the bucket, where the season
  is winter in months 1 to 3, spring in 4 to 6, summer in 7 to 9 and autumn in 10 to 12;
  the source of each is \<open>seasonal\<close> and its popularity lies between 70 and 88.
\<close>

theorem source_seasonal_shape:
  assumes "1 \<le> month" and "month \<le> 12"
  shows "length (source_seasonal month draws) = 6 \<and>
     map keyword (source_seasonal month draws) =
       map (\<lambda>b. (if month \<le> 3 then ''winter'' else if month \<le> 6 then ''spring''
                  else if month \<le> 9 then ''summer'' else ''autumn'') @ '' '' @ b)
           [''business'', ''lifestyle'', ''nature'', ''technology'', ''food'', ''education''] \<and>
     (\<forall>t \<in> set (source_seasonal month draws).
        source t = ''seasonal'' \<and> 70 \<le> popularity t \<and> popularity t \<le> 88)"
proof -
  have len: "length (source_seasonal month draws) = 6"
    by (simp add: source_seasonal_unfold)
  have kws: "map keyword (source_seasonal month draws) =
       map (\<lambda>b. (if month \<le> 3 then ''winter'' else if month \<le> 6 then ''spring''
                  else if month \<le> 9 then ''summer'' else ''autumn'') @ '' '' @ b)
           [''business'', ''lifestyle'', ''nature'', ''technology'', ''food'', ''education'']"
    by (simp add: source_seasonal_unfold season_index [OF assms] season_names_def)
  have rest: "\<forall>t \<in> set (source_seasonal month draws).
        source t = ''seasonal'' \<and> 70 \<le> popularity t \<and> popularity t \<le> 88"
    by (simp add: source_seasonal_unfold randint_bounds)
  from len kws rest show ?thesis by blast
qed

theorem source_seasonal_shape_witness:
  "length (source_seasonal 11 (\<lambda>i. 5)) = 6 \<and>
   map keyword (source_seasonal 11 (\<lambda>i. 5)) =
     [''autumn business'', ''autumn lifestyle'', ''autumn nature'', ''autumn technology'',
      ''autumn food'', ''autumn education''] \<and>
   map source (source_seasonal 11 (\<lambda>i. 5)) = replicate 6 ''seasonal'' \<and>
   map popularity (source_seasonal 11 (\<lambda>i. 5)) = replicate 6 75"
proof -
  have m: "(1::int) \<le> 11" "(11::int) \<le> 12" by simp_all
  note th = source_seasonal_shape [OF m, of "\<lambda>i. 5"]
  have p: "map popularity (source_seasonal 11 (\<lambda>i. 5)) = replicate 6 75"
    by (simp add: source_seasonal_unfold randint_def numeral_eq_Suc)
  have s: "map source (source_seasonal 11 (\<lambda>i. 5)) = replicate 6 ''seasonal''"
    by (simp add: source_seasonal_unfold numeral_eq_Suc)
  from th p s show ?thesis by simp
qed

subsection \<open>Deduplication: the loop and the surviving record\<close>

lemma update_absent: "map_of al k = None \<Longrightarrow> AList.update k v al = al @ [(k, v)]"
  by (induction al) (auto split: if_splits)

lemma dedup_step_rejected: "\<not> accepted (normalized t) \<Longrightarrow> dedup_step u t = u"
  by (auto simp: dedup_step_def accepted_def normalized_def Let_def)

lemma dedup_step_new:
  "accepted (normalized t) \<Longrightarrow> map_of u (normalized t) = None \<Longrightarrow>
   dedup_step u t = u @ [(normalized t, t)]"
  by (simp add: dedup_step_def accepted_def normalized_def Let_def update_absent)

lemma dedup_step_replace:
  "accepted (normalized t) \<Longrightarrow> map_of u (normalized t) = Some cur \<Longrightarrow> beats t cur \<Longrightarrow>
   dedup_step u t = AList.update (normalized t) t u"
  by (simp add: dedup_step_def accepted_def normalized_def Let_def beats_def)

lemma dedup_step_keep:
  "accepted (normalized t) \<Longrightarrow> map_of u (normalized t) = Some cur \<Longrightarrow> \<not> beats t cur \<Longrightarrow>
   dedup_step u t = u"
  by (auto simp: dedup_step_def accepted_def normalized_def Let_def beats_def)

lemma dedup_step_cases:
  "dedup_step u t = u \<or> dedup_step u t = AList.update (normalized t) t u"
  by (cases "accepted (normalized t)"; cases "map_of u (normalized t)")
     (auto simp: dedup_step_rejected dedup_step_new update_absent
           dest: dedup_step_replace dedup_step_keep)

lemma dedup_snoc: "dedup (ts @ [t]) = dedup_step (dedup ts) t"
  by (simp add: dedup_def)

lemma dedup_Nil: "dedup [] = []"
  by (simp add: dedup_def)

lemma map_of_dedup_step_other:
  "k \<noteq> normalized t \<Longrightarrow> map_of (dedup_step u t) k = map_of u k"
  using dedup_step_cases [of u t] by (auto simp: update_conv')

lemma beats_irrefl: "\<not> beats t t"
  by (simp add: beats_def)

lemma beats_asym: "beats a b \<Longrightarrow> \<not> beats b a"
  by (auto simp: beats_def)

lemma beats_trans_left: "beats t c \<Longrightarrow> \<not> beats x c \<Longrightarrow> beats t x"
  by (auto simp: beats_def)

lemma beats_trans_right: "\<not> beats u c \<Longrightarrow> beats t c \<Longrightarrow> \<not> beats u t"
  by (auto simp: beats_def)

lemma candidates_snoc:
  "candidates k (ts @ [t]) = (if normalized t = k then candidates k ts @ [t] else candidates k ts)"
  by (simp add: candidates_def)

lemma unbeaten_snoc_other: "normalized t \<noteq> k \<Longrightarrow> unbeaten k (ts @ [t]) = unbeaten k ts"
  by (simp add: unbeaten_def candidates_snoc)

lemma unbeaten_snoc_same:
  "normalized t = k \<Longrightarrow>
   unbeaten k (ts @ [t]) =
     filter (\<lambda>x. \<not> beats t x) (unbeaten k ts) @
     (if list_all (\<lambda>u. \<not> beats u t) (candidates k ts) then [t] else [])"
  by (auto simp: unbeaten_def candidates_snoc beats_irrefl conj_commute)

lemma exists_unbeaten:
  "C \<noteq> [] \<Longrightarrow> \<exists>x \<in> set C. \<forall>u \<in> set C. \<not> beats u x"
proof (induction C)
  case Nil
  then show ?case by simp
next
  case (Cons c C)
  show ?case
  proof (cases "C = []")
    case True
    then show ?thesis by (simp add: beats_irrefl)
  next
    case False
    with Cons.IH obtain x where x: "x \<in> set C" "\<forall>u \<in> set C. \<not> beats u x" by blast
    show ?thesis
    proof (cases "beats c x")
      case True
      then have "\<forall>u \<in> set (c # C). \<not> beats u c"
        using x(2) by (auto simp: beats_irrefl dest: beats_trans_right)
      then show ?thesis by auto
    next
      case False
      then have "\<forall>u \<in> set (c # C). \<not> beats u x" using x(2) by simp
      then show ?thesis using x(1) by auto
    qed
  qed
qed

lemma unbeaten_Nil_iff: "unbeaten k ts = [] \<longleftrightarrow> candidates k ts = []"
proof
  assume u: "unbeaten k ts = []"
  show "candidates k ts = []"
  proof (rule ccontr)
    assume "candidates k ts \<noteq> []"
    from exists_unbeaten [OF this] obtain x
      where "x \<in> set (candidates k ts)" "\<forall>u \<in> set (candidates k ts). \<not> beats u x" by blast
    then have "x \<in> set (unbeaten k ts)" by (simp add: unbeaten_def list_all_iff)
    with u show False by simp
  qed
next
  assume "candidates k ts = []"
  then show "unbeaten k ts = []" by (simp add: unbeaten_def)
qed

lemma unbeaten_subset: "set (unbeaten k ts) \<subseteq> set (candidates k ts)"
  by (auto simp: unbeaten_def)

lemma unbeaten_max: "x \<in> set (unbeaten k ts) \<Longrightarrow> u \<in> set (candidates k ts) \<Longrightarrow> \<not> beats u x"
  by (auto simp: unbeaten_def list_all_iff)

lemma map_of_dedup: "map_of (dedup ts) k = survivor k ts"
proof (induction ts arbitrary: k rule: rev_induct)
  case Nil
  then show ?case by (simp add: dedup_Nil survivor_def unbeaten_def candidates_def)
next
  case (snoc t ts)
  show ?case
  proof (cases "normalized t = k")
    case False
    then show ?thesis
      using snoc.IH [of k]
      by (simp add: dedup_snoc map_of_dedup_step_other survivor_def unbeaten_snoc_other)
  next
    case same: True
    show ?thesis
    proof (cases "accepted k")
      case False
      then show ?thesis
        using snoc.IH [of k] same
        by (simp add: dedup_snoc dedup_step_rejected survivor_def)
    next
      case acc: True
      show ?thesis
      proof (cases "unbeaten k ts")
        case Nil
        then have none: "map_of (dedup ts) k = None"
          using snoc.IH [of k] acc by (simp add: survivor_def)
        from Nil have "candidates k ts = []" by (simp add: unbeaten_Nil_iff)
        then have "unbeaten k (ts @ [t]) = [t]"
          using same Nil by (simp add: unbeaten_snoc_same)
        then show ?thesis
          using none acc same by (simp add: dedup_snoc dedup_step_new survivor_def map_add_def)
      next
        case (Cons cur rest)
        then have some: "map_of (dedup ts) k = Some cur"
          using snoc.IH [of k] acc by (simp add: survivor_def)
        have cur_in: "cur \<in> set (unbeaten k ts)" using Cons by simp
        then have cur_cand: "cur \<in> set (candidates k ts)" using unbeaten_subset by blast
        show ?thesis
        proof (cases "beats t cur")
          case True
          have a: "filter (\<lambda>x. \<not> beats t x) (unbeaten k ts) = []"
          proof -
            have "beats t x" if "x \<in> set (unbeaten k ts)" for x
            proof -
              from that have "x \<in> set (candidates k ts)" using unbeaten_subset by blast
              then have "\<not> beats x cur" using cur_in by (rule unbeaten_max [rotated])
              with True show ?thesis by (rule beats_trans_left)
            qed
            then show ?thesis by (simp add: filter_empty_conv)
          qed
          have b: "list_all (\<lambda>u. \<not> beats u t) (candidates k ts)"
            unfolding list_all_iff
          proof
            fix u assume "u \<in> set (candidates k ts)"
            then have "\<not> beats u cur" using cur_in by (rule unbeaten_max [rotated])
            then show "\<not> beats u t" using True by (rule beats_trans_right)
          qed
          from a b have "unbeaten k (ts @ [t]) = [t]"
            using same by (simp add: unbeaten_snoc_same)
          then show ?thesis
            using some acc same True
            by (simp add: dedup_snoc dedup_step_replace [where cur = cur] survivor_def update_conv')
        next
          case False
          then have "\<exists>r. unbeaten k (ts @ [t]) = cur # r"
            using same Cons by (simp add: unbeaten_snoc_same)
          then show ?thesis
            using some acc same False
            by (auto simp: dedup_snoc dedup_step_keep [where cur = cur] survivor_def)
        qed
      qed
    qed
  qed
qed

lemma keys_dedup_step:
  "map fst (dedup_step u t) =
     (if accepted (normalized t) \<and> normalized t \<notin> set (map fst u)
      then map fst u @ [normalized t] else map fst u)"
proof (cases "accepted (normalized t)")
  case False
  then show ?thesis by (simp add: dedup_step_rejected)
next
  case acc: True
  show ?thesis
  proof (cases "map_of u (normalized t)")
    case None
    then have "normalized t \<notin> fst ` set u" by (simp add: map_of_eq_None_iff)
    then show ?thesis using acc None by (simp add: dedup_step_new)
  next
    case (Some cur)
    then have "normalized t \<in> fst ` set u" by (metis map_of_eq_None_iff option.distinct(1))
    then have "map fst (AList.update (normalized t) t u) = map fst u"
      by (simp add: update_keys)
    then show ?thesis
      using acc \<open>normalized t \<in> fst ` set u\<close> dedup_step_cases [of u t] by auto
  qed
qed

lemma first_seen_Nil: "first_seen [] = []"
  by (simp add: first_seen_def)

lemma first_seen_snoc:
  "first_seen (xs @ [x]) = (if x \<in> set xs then first_seen xs else first_seen xs @ [x])"
  by (simp add: first_seen_def)

lemma set_first_seen: "set (first_seen xs) = set xs"
  by (simp add: first_seen_def)

lemma distinct_first_seen: "distinct (first_seen xs)"
  by (simp add: first_seen_def)

lemma keys_dedup:
  "map fst (dedup ts) = first_seen (map normalized (filter (\<lambda>t. accepted (normalized t)) ts))"
proof (induction ts rule: rev_induct)
  case Nil
  then show ?case by (simp add: dedup_Nil first_seen_Nil)
next
  case (snoc t ts)
  have "set (map fst (dedup ts)) = normalized ` {x \<in> set ts. accepted (normalized x)}"
    using snoc.IH by (auto simp: set_first_seen)
  then show ?case
    using snoc.IH by (auto simp: dedup_snoc keys_dedup_step first_seen_snoc)
qed

lemma distinct_keys_dedup: "distinct (map fst (dedup ts))"
  by (simp add: keys_dedup distinct_first_seen)

lemma set_keys_dedup:
  "fst ` set (dedup ts) = {normalized t | t. t \<in> set ts \<and> accepted (normalized t)}"
proof -
  have "fst ` set (dedup ts) = set (map fst (dedup ts))" by simp
  also have "\<dots> = normalized ` {t \<in> set ts. accepted (normalized t)}"
    by (simp add: keys_dedup set_first_seen)
  finally show ?thesis by auto
qed

lemma dedup_entry: "(k, v) \<in> set (dedup ts) \<longleftrightarrow> survivor k ts = Some v"
  using distinct_keys_dedup [of ts] by (simp add: map_of_dedup [symmetric])

lemma survivor_SomeD:
  assumes "survivor k ts = Some v"
  shows "accepted k" and "normalized v = k" and "v \<in> set ts"
    and "\<And>u. u \<in> set ts \<Longrightarrow> normalized u = k \<Longrightarrow> \<not> beats u v"
proof -
  from assms show acc: "accepted k" by (simp add: survivor_def split: if_splits)
  from assms acc obtain r where "unbeaten k ts = v # r"
    by (auto simp: survivor_def split: list.splits)
  then have v: "v \<in> set (unbeaten k ts)" by simp
  then have c: "v \<in> set (candidates k ts)" using unbeaten_subset by blast
  then show "normalized v = k" and "v \<in> set ts" by (simp_all add: candidates_def)
  show "\<not> beats u v" if "u \<in> set ts" "normalized u = k" for u
  proof -
    from that have "u \<in> set (candidates k ts)" by (simp add: candidates_def)
    with v show ?thesis by (rule unbeaten_max)
  qed
qed

lemma underscore_run_iff: "underscore_run kw \<longleftrightarrow> (\<exists>pre post. kw = pre @ ''__'' @ post)"
proof (induction kw rule: underscore_run.induct)
  case (1 a b cs)
  show ?case
  proof
    assume "underscore_run (a # b # cs)"
    then consider "a = CHR ''_'' \<and> b = CHR ''_''" | "underscore_run (b # cs)" by auto
    then show "\<exists>pre post. a # b # cs = pre @ ''__'' @ post"
    proof cases
      case 1
      then have "a # b # cs = [] @ ''__'' @ cs" by simp
      then show ?thesis by blast
    next
      case 2
      with "1.IH" obtain pre post where "b # cs = pre @ ''__'' @ post" by blast
      then have "a # b # cs = (a # pre) @ ''__'' @ post" by simp
      then show ?thesis by blast
    qed
  next
    assume "\<exists>pre post. a # b # cs = pre @ ''__'' @ post"
    then obtain pre post where eq: "a # b # cs = pre @ ''__'' @ post" by blast
    show "underscore_run (a # b # cs)"
    proof (cases pre)
      case Nil
      with eq show ?thesis by simp
    next
      case (Cons p pre')
      with eq have "b # cs = pre' @ ''__'' @ post" by simp
      with "1.IH" have "underscore_run (b # cs)" by blast
      then show ?thesis by simp
    qed
  qed
qed (auto simp: Cons_eq_append_conv)

subsection \<open>Filtering pass\<close>

lemma accepted_iff:
  "accepted kw \<longleftrightarrow>
     3 \<le> length kw \<and> length kw \<le> 50 \<and> \<not> (\<exists>pre post. kw = pre @ ''__'' @ post)"
  by (simp add: accepted_def underscore_run_iff)

lemma dropWhile_keeps:
  assumes "w \<noteq> []" and "\<not> P (hd w)"
  shows "\<exists>pre'. dropWhile P (pre @ w @ post) = pre' @ w @ post"
proof (induction pre)
  case Nil
  from assms have "dropWhile P (w @ post) = w @ post" by (cases w) simp_all
  then have "dropWhile P ([] @ w @ post) = [] @ w @ post" by simp
  then show ?case by blast
next
  case (Cons p pre)
  then obtain pre' where IH: "dropWhile P (pre @ w @ post) = pre' @ w @ post" by blast
  show ?case
  proof (cases "P p")
    case True
    with IH show ?thesis by auto
  next
    case False
    then have "dropWhile P ((p # pre) @ w @ post) = (p # pre) @ w @ post" by simp
    then show ?thesis by blast
  qed
qed

lemma strip_keeps:
  assumes "w \<noteq> []" and "\<not> isspace (hd w)" and "\<not> isspace (last w)"
  shows "\<exists>pre' post'. strip (pre @ w @ post) = pre' @ w @ post'"
proof -
  from dropWhile_keeps [of w isspace pre post] assms(1,2) obtain pre'
    where a: "dropWhile isspace (pre @ w @ post) = pre' @ w @ post" by blast
  have "rev w \<noteq> []" "\<not> isspace (hd (rev w))"
    using assms(1,3) by (simp_all add: hd_rev)
  from dropWhile_keeps [of "rev w" isspace "rev post" "rev pre'"] this obtain q
    where b: "dropWhile isspace (rev post @ rev w @ rev pre') = q @ rev w @ rev pre'" by blast
  have "strip (pre @ w @ post) = pre' @ w @ rev q"
    by (simp add: strip_def a b)
  then show ?thesis by blast
qed

lemma normalized_keeps_underscores:
  assumes "keyword t = pre @ ''__'' @ post"
  shows "\<exists>pre' post'. normalized t = pre' @ ''__'' @ post'"
proof -
  have "\<exists>pre' post'. strip (pre @ ''__'' @ post) = pre' @ ''__'' @ post'"
    by (rule strip_keeps) (simp_all add: isspace_def)
  then obtain pre' post' where "strip (keyword t) = pre' @ ''__'' @ post'"
    using assms by auto
  then have "normalized t = lower pre' @ ''__'' @ lower post'"
    by (simp add: normalized_def lower_def lower_char_def)
  then show ?thesis by blast
qed

lemma set_top_trends: "set (top_trends ts) \<subseteq> snd ` set (dedup ts)"
proof -
  have "set (top_trends ts) \<subseteq> set (ranked (dedup ts))"
    by (simp add: top_trends_def set_take_subset)
  also have "\<dots> = snd ` set (dedup ts)"
    by (simp add: ranked_def sorted_reverse_def)
  finally show ?thesis .
qed

text \<open>
  Claim C5. A turn of the loop leaves \<open>unique\<close> as it is for every record whose trimmed,
  lower-cased keyword is shorter than 3 or longer than 50 characters or contains two
  consecutive underscores, and every other record has its key in \<open>unique\<close> after its
  turn. So the keys of \<open>unique\<close> are the normalized keywords of the records that pass, and
  no record of \<open>top_trends\<close> fails the tests. The keyword \<open>ai\<close> is dropped, \<open>ai3\<close> passes,
  and every keyword that contains \<open>foo__bar\<close> is dropped.
\<close>

theorem filter_pass:
  "(length (normalized t) < 3 \<or> 50 < length (normalized t) \<or>
      (\<exists>pre post. normalized t = pre @ ''__'' @ post)
    \<longrightarrow> dedup_step unique t = unique) \<and>
   (3 \<le> length (normalized t) \<and> length (normalized t) \<le> 50 \<and>
      \<not> (\<exists>pre post. normalized t = pre @ ''__'' @ post)
    \<longrightarrow> normalized t \<in> fst ` set (dedup_step unique t)) \<and>
   fst ` set (dedup ts) =
     {normalized x | x. x \<in> set ts \<and> 3 \<le> length (normalized x) \<and> length (normalized x) \<le> 50 \<and>
        \<not> (\<exists>pre post. normalized x = pre @ ''__'' @ post)} \<and>
   (\<forall>v \<in> set (top_trends ts).
      3 \<le> length (normalized v) \<and> length (normalized v) \<le> 50 \<and>
      \<not> (\<exists>pre post. normalized v = pre @ ''__'' @ post)) \<and>
   (keyword a = ''ai'' \<longrightarrow> dedup_step unique a = unique) \<and>
   (keyword b = ''ai3'' \<longrightarrow> normalized b \<in> fst ` set (dedup_step unique b)) \<and>
   (\<forall>pre post. keyword c = pre @ ''foo__bar'' @ post \<longrightarrow> dedup_step unique c = unique)"
proof -
  have drop: "dedup_step u x = u" if "\<not> accepted (normalized x)" for u x
    using that by (rule dedup_step_rejected)
  have keep: "normalized x \<in> fst ` set (dedup_step u x)" if "accepted (normalized x)" for u x
  proof -
    have "normalized x \<in> set (map fst (dedup_step u x))"
      using that by (simp add: keys_dedup_step)
    then show ?thesis by simp
  qed
  have c1: "length (normalized t) < 3 \<or> 50 < length (normalized t) \<or>
      (\<exists>pre post. normalized t = pre @ ''__'' @ post)
    \<longrightarrow> dedup_step unique t = unique"
    using drop [of t unique] by (auto simp: accepted_iff)
  have c2: "3 \<le> length (normalized t) \<and> length (normalized t) \<le> 50 \<and>
      \<not> (\<exists>pre post. normalized t = pre @ ''__'' @ post)
    \<longrightarrow> normalized t \<in> fst ` set (dedup_step unique t)"
    using keep [of t unique] by (simp add: accepted_iff)
  have c3: "fst ` set (dedup ts) =
     {normalized x | x. x \<in> set ts \<and> 3 \<le> length (normalized x) \<and> length (normalized x) \<le> 50 \<and>
        \<not> (\<exists>pre post. normalized x = pre @ ''__'' @ post)}"
    by (simp add: set_keys_dedup accepted_iff)
  have c4: "\<forall>v \<in> set (top_trends ts).
      3 \<le> length (normalized v) \<and> length (normalized v) \<le> 50 \<and>
      \<not> (\<exists>pre post. normalized v = pre @ ''__'' @ post)"
  proof
    fix v assume "v \<in> set (top_trends ts)"
    then obtain k where "(k, v) \<in> set (dedup ts)" using set_top_trends [of ts] by force
    then have "survivor k ts = Some v" by (simp add: dedup_entry)
    then have "accepted k" "normalized v = k" by (rule survivor_SomeD)+
    then show "3 \<le> length (normalized v) \<and> length (normalized v) \<le> 50 \<and>
      \<not> (\<exists>pre post. normalized v = pre @ ''__'' @ post)"
      by (simp add: accepted_iff)
  qed
  have c5: "keyword a = ''ai'' \<longrightarrow> dedup_step unique a = unique"
  proof
    assume "keyword a = ''ai''"
    then have "normalized a = ''ai''"
      by (simp add: normalized_def strip_def isspace_def lower_def lower_char_def)
    then have "\<not> accepted (normalized a)" by (simp add: accepted_def)
    then show "dedup_step unique a = unique" by (rule drop)
  qed
  have c6: "keyword b = ''ai3'' \<longrightarrow> normalized b \<in> fst ` set (dedup_step unique b)"
  proof
    assume "keyword b = ''ai3''"
    then have "normalized b = ''ai3''"
      by (simp add: normalized_def strip_def isspace_def lower_def lower_char_def)
    then have "accepted (normalized b)" by (simp add: accepted_def)
    then show "normalized b \<in> fst ` set (dedup_step unique b)" by (rule keep)
  qed
  have c7: "\<forall>pre post. keyword c = pre @ ''foo__bar'' @ post \<longrightarrow> dedup_step unique c = unique"
  proof (intro allI impI)
    fix pre post assume "keyword c = pre @ ''foo__bar'' @ post"
    then have "keyword c = (pre @ ''foo'') @ ''__'' @ (''bar'' @ post)" by simp
    then have "\<exists>pre' post'. normalized c = pre' @ ''__'' @ post'"
      by (rule normalized_keeps_underscores)
    then have "\<not> accepted (normalized c)" by (simp add: accepted_iff)
    then show "dedup_step unique c = unique" by (rule drop)
  qed
  from c1 c2 c3 c4 c5 c6 c7 show ?thesis by blast
qed

theorem filter_pass_witness:
  "dedup_step [] \<lparr>keyword = ''ai'', popularity = 90, category = ''technology'',
                    source = ''pytrends''\<rparr> = [] \<and>
   ''ai3'' \<in> fst ` set (dedup_step [] \<lparr>keyword = ''ai3'', popularity = 90,
                    category = ''technology'', source = ''pytrends''\<rparr>) \<and>
   dedup_step [] \<lparr>keyword = ''my foo__bar'', popularity = 90, category = ''general'',
                    source = ''pytrends''\<rparr> = []"
proof -
  let ?a = "\<lparr>keyword = ''ai'', popularity = 90, category = ''technology'',
              source = ''pytrends''\<rparr>"
  let ?b = "\<lparr>keyword = ''ai3'', popularity = 90, category = ''technology'',
              source = ''pytrends''\<rparr>"
  let ?c = "\<lparr>keyword = ''my foo__bar'', popularity = 90, category = ''general'',
              source = ''pytrends''\<rparr>"
  note th = filter_pass [of ?a "[]" "[]" ?a ?b ?c]
  have nb: "normalized ?b = ''ai3''"
    by (simp add: normalized_def strip_def isspace_def lower_def lower_char_def)
  have kc: "keyword ?c = ''my '' @ ''foo__bar'' @ []" by simp
  from th have "dedup_step [] ?a = []" by simp
  moreover from th nb have "''ai3'' \<in> fst ` set (dedup_step [] ?b)" by simp
  moreover from th kc have "dedup_step [] ?c = []" by blast
  ultimately show ?thesis by simp
qed

subsection \<open>Deduplication pass\<close>

lemma dedup_pair:
  assumes "accepted (normalized a)" and "normalized b = normalized a"
  shows "dedup [a, b] = [(normalized a, if beats b a then b else a)]"
proof -
  have one: "dedup [a] = [(normalized a, a)]"
    using assms(1) dedup_snoc [of "[]" a] by (simp add: dedup_Nil dedup_step_new)
  have m: "map_of (dedup [a]) (normalized b) = Some a" using assms(2) by (simp add: one)
  have acc: "accepted (normalized b)" using assms by simp
  have "dedup [a, b] = dedup_step (dedup [a]) b" using dedup_snoc [of "[a]" b] by simp
  also have "\<dots> = [(normalized a, if beats b a then b else a)]"
  proof (cases "beats b a")
    case True
    from dedup_step_replace [OF acc m True] show ?thesis
      using True assms(2) by (simp add: one)
  next
    case False
    from dedup_step_keep [OF acc m False] show ?thesis
      using False by (simp add: one)
  qed
  finally show ?thesis .
qed

lemma source_priority_table:
  "source_priority ''pytrends'' = 9" "source_priority ''pexels_api'' = 8"
  "source_priority ''unsplash_api'' = 7" "source_priority ''unsplash_topics'' = 6"
  "source_priority ''seasonal'' = 4"
  by (simp_all add: source_priority_def)

text \<open>
  Claim C3. The keys of \<open>unique\<close> are distinct, so every record that passes the filter
  has exactly one record stored under its trimmed, lower-cased keyword. The stored
  record is the survivor of the specification: a record of the list with this key that
  no record with this key exceeds in popularity, or equals in popularity and exceeds in
  source priority, and the first such record in processing order. For two records with
  the same key the second replaces the first exactly when its popularity is strictly
  higher, or equal with a strictly higher source priority; on a tie in both the first
  is kept. The priorities fall from pytrends over pexels_api, unsplash_api and
  unsplash_topics to seasonal.
\<close>

theorem dedup_keeps_best:
  "distinct (map fst (dedup ts)) \<and>
   (\<forall>a \<in> set ts. accepted (normalized a) \<longrightarrow>
      (\<exists>!v. (normalized a, v) \<in> set (dedup ts))) \<and>
   (\<forall>k v. (k, v) \<in> set (dedup ts) \<longrightarrow>
      survivor k ts = Some v \<and> v \<in> set ts \<and> normalized v = k \<and>
      (\<forall>u \<in> set ts. normalized u = k \<longrightarrow>
         \<not> (popularity u > popularity v \<or>
            (popularity u = popularity v \<and>
             source_priority (source u) > source_priority (source v))))) \<and>
   (accepted (normalized a) \<and> normalized b = normalized a \<longrightarrow>
      dedup [a, b] =
        [(normalized a,
          if popularity b > popularity a \<or>
             (popularity b = popularity a \<and>
              source_priority (source b) > source_priority (source a))
          then b else a)]) \<and>
   source_priority ''pytrends'' > source_priority ''pexels_api'' \<and>
   source_priority ''pexels_api'' > source_priority ''unsplash_api'' \<and>
   source_priority ''unsplash_api'' > source_priority ''unsplash_topics'' \<and>
   source_priority ''unsplash_topics'' > source_priority ''seasonal''"
proof -
  have c1: "distinct (map fst (dedup ts))" by (rule distinct_keys_dedup)
  have c2: "\<forall>a \<in> set ts. accepted (normalized a) \<longrightarrow>
      (\<exists>!v. (normalized a, v) \<in> set (dedup ts))"
  proof (intro ballI impI)
    fix a assume "a \<in> set ts" "accepted (normalized a)"
    then have "normalized a \<in> fst ` set (dedup ts)" by (auto simp: set_keys_dedup)
    then obtain v where "(normalized a, v) \<in> set (dedup ts)" by force
    then show "\<exists>!v. (normalized a, v) \<in> set (dedup ts)"
      by (auto simp: dedup_entry)
  qed
  have c3: "\<forall>k v. (k, v) \<in> set (dedup ts) \<longrightarrow>
      survivor k ts = Some v \<and> v \<in> set ts \<and> normalized v = k \<and>
      (\<forall>u \<in> set ts. normalized u = k \<longrightarrow>
         \<not> (popularity u > popularity v \<or>
            (popularity u = popularity v \<and>
             source_priority (source u) > source_priority (source v))))"
  proof (intro allI impI)
    fix k v assume "(k, v) \<in> set (dedup ts)"
    then have s: "survivor k ts = Some v" by (simp add: dedup_entry)
    from survivor_SomeD [OF s] have "v \<in> set ts" "normalized v = k"
      and "\<And>u. u \<in> set ts \<Longrightarrow> normalized u = k \<Longrightarrow> \<not> beats u v" by blast+
    with s show "survivor k ts = Some v \<and> v \<in> set ts \<and> normalized v = k \<and>
      (\<forall>u \<in> set ts. normalized u = k \<longrightarrow>
         \<not> (popularity u > popularity v \<or>
            (popularity u = popularity v \<and>
             source_priority (source u) > source_priority (source v))))"
      unfolding beats_def by blast
  qed
  have c4: "accepted (normalized a) \<and> normalized b = normalized a \<longrightarrow>
      dedup [a, b] =
        [(normalized a,
          if popularity b > popularity a \<or>
             (popularity b = popularity a \<and>
              source_priority (source b) > source_priority (source a))
          then b else a)]"
    using dedup_pair [of a b] unfolding beats_def by blast
  have c5: "source_priority ''pytrends'' > source_priority ''pexels_api'' \<and>
   source_priority ''pexels_api'' > source_priority ''unsplash_api'' \<and>
   source_priority ''unsplash_api'' > source_priority ''unsplash_topics'' \<and>
   source_priority ''unsplash_topics'' > source_priority ''seasonal''"
    by (simp add: source_priority_table)
  from c1 c2 c3 c4 c5 show ?thesis by blast
qed

theorem dedup_keeps_best_witness:
  "dedup [\<lparr>keyword = ''Remote Work'', popularity = 80, category = ''business'',
            source = ''seasonal''\<rparr>,
          \<lparr>keyword = ''remote work'', popularity = 95, category = ''business'',
            source = ''pytrends''\<rparr>] =
     [(''remote work'', \<lparr>keyword = ''remote work'', popularity = 95, category = ''business'',
            source = ''pytrends''\<rparr>)] \<and>
   dedup [\<lparr>keyword = ''remote work'', popularity = 90, category = ''business'',
            source = ''unsplash_api''\<rparr>,
          \<lparr>keyword = ''remote work '', popularity = 90, category = ''business'',
            source = ''pexels_api''\<rparr>] =
     [(''remote work'', \<lparr>keyword = ''remote work '', popularity = 90, category = ''business'',
            source = ''pexels_api''\<rparr>)] \<and>
   dedup [\<lparr>keyword = ''remote work'', popularity = 90, category = ''business'',
            source = ''pexels_api''\<rparr>,
          \<lparr>keyword = ''REMOTE WORK'', popularity = 90, category = ''business'',
            source = ''pexels_api''\<rparr>] =
     [(''remote work'', \<lparr>keyword = ''remote work'', popularity = 90, category = ''business'',
            source = ''pexels_api''\<rparr>)]"
proof -
  let ?s = "\<lparr>keyword = ''Remote Work'', popularity = 80, category = ''business'',
            source = ''seasonal''\<rparr>"
  let ?p = "\<lparr>keyword = ''remote work'', popularity = 95, category = ''business'',
            source = ''pytrends''\<rparr>"
  let ?u = "\<lparr>keyword = ''remote work'', popularity = 90, category = ''business'',
            source = ''unsplash_api''\<rparr>"
  let ?x = "\<lparr>keyword = ''remote work '', popularity = 90, category = ''business'',
            source = ''pexels_api''\<rparr>"
  let ?y = "\<lparr>keyword = ''remote work'', popularity = 90, category = ''business'',
            source = ''pexels_api''\<rparr>"
  let ?z = "\<lparr>keyword = ''REMOTE WORK'', popularity = 90, category = ''business'',
            source = ''pexels_api''\<rparr>"
  have n: "normalized ?s = ''remote work''" "normalized ?p = ''remote work''"
    "normalized ?u = ''remote work''" "normalized ?x = ''remote work''"
    "normalized ?y = ''remote work''" "normalized ?z = ''remote work''"
    by (simp_all add: normalized_def strip_def isspace_def lower_def lower_char_def)
  have acc: "accepted ''remote work''" by (simp add: accepted_def)
  from dedup_keeps_best [of "[]" ?s ?p] n acc
  have 1: "dedup [?s, ?p] = [(''remote work'', ?p)]" by simp
  from dedup_keeps_best [of "[]" ?u ?x] n acc
  have 2: "dedup [?u, ?x] = [(''remote work'', ?x)]" by (simp add: source_priority_table)
  from dedup_keeps_best [of "[]" ?y ?z] n acc
  have 3: "dedup [?y, ?z] = [(''remote work'', ?y)]" by simp
  from 1 2 3 show ?thesis by simp
qed

subsection \<open>The orchestrator never returns an empty ranking\<close>

lemma gather_total:
  "Pending \<notin> snd ` set completions \<Longrightarrow> \<exists>res. gather completions acc = Inr res"
  by (induction completions acc rule: gather.induct) auto

lemma gather_pending:
  "Pending \<in> snd ` set completions \<Longrightarrow> gather completions acc = Inl TimeoutError"
  by (induction completions acc rule: gather.induct) auto

lemma collect_InrD:
  assumes "collect max_workers completions month draws = Inr r"
  obtains gathered used where "0 < max_workers"
    and "gather completions ([], []) = Inr (gathered, used)"
    and "sources_used r = (if ''seasonal'' \<notin> set used then used @ [''seasonal''] else used)"
    and "total_keywords_found r = length (gathered @ source_seasonal month draws)"
    and "trending_searches r = top_trends (gathered @ source_seasonal month draws)"
    and "popular_categories r =
           sorted_reverse avg_popularity (map snd (categories_of (trending_searches r)))"
    and "seasonal_trends r = filter (\<lambda>t. source t = ''seasonal'') (trending_searches r)"
proof -
  from assms have mw: "0 < max_workers"
    by (simp add: collect_def split: if_splits)
  from assms mw obtain gathered used where g: "gather completions ([], []) = Inr (gathered, used)"
    by (auto simp: collect_def split: sum.splits)
  from assms mw g have
    "r = \<lparr>sources_used = (if ''seasonal'' \<notin> set used then used @ [''seasonal''] else used),
          total_keywords_found = length (gathered @ source_seasonal month draws),
          trending_searches = top_trends (gathered @ source_seasonal month draws),
          popular_categories = sorted_reverse avg_popularity
            (map snd (categories_of (top_trends (gathered @ source_seasonal month draws)))),
          seasonal_trends = filter (\<lambda>t. source t = ''seasonal'')
            (top_trends (gathered @ source_seasonal month draws))\<rparr>"
    by (simp add: collect_def Let_def)
  then show ?thesis using mw g that by simp
qed

lemma seasonal_first_accepted:
  "\<exists>t \<in> set (source_seasonal month draws). accepted (normalized t)"
proof -
  let ?i = "nat (((month - 1) div 3) mod 4)"
  have "?i < 4" by simp
  then consider "?i = 0" | "?i = 1" | "?i = 2" | "?i = 3" by linarith
  then have "accepted (lower (strip (season_names ! ?i @ '' business'')))"
    by cases
      (simp_all add: season_names_def strip_def isspace_def lower_def lower_char_def accepted_def)
  then show ?thesis
    by (simp add: source_seasonal_unfold normalized_def)
qed

lemma top_trends_nonempty:
  assumes "\<exists>t \<in> set ts. accepted (normalized t)"
  shows "top_trends ts \<noteq> []"
proof -
  from assms have "fst ` set (dedup ts) \<noteq> {}" by (auto simp: set_keys_dedup)
  then have "dedup ts \<noteq> []" by auto
  then have "length (ranked (dedup ts)) \<noteq> 0"
    by (simp add: ranked_def sorted_reverse_def)
  then have "ranked (dedup ts) \<noteq> []" by (simp del: length_0_conv)
  then show ?thesis by (simp add: top_trends_def)
qed

text \<open>
  Claim C1. Whenever \<open>collect\<close> returns a result, \<open>trending_searches\<close> holds at least one
  record and \<open>sources_used\<close> contains \<open>seasonal\<close>; and it does return such a result in
  every execution in which each adapter returns a list, empty or not, or raises, for a
  positive \<open>max_workers\<close>. The month and the draws of the seasonal fallback are arbitrary.
\<close>

theorem collect_never_empty:
  "(collect max_workers completions month draws = Inr r \<longrightarrow>
      1 \<le> length (trending_searches r) \<and> ''seasonal'' \<in> set (sources_used r)) \<and>
   (0 < max_workers \<and> Pending \<notin> snd ` set completions \<longrightarrow>
      (\<exists>res. collect max_workers completions month draws = Inr res \<and>
         1 \<le> length (trending_searches res) \<and> ''seasonal'' \<in> set (sources_used res)))"
proof -
  have a: "1 \<le> length (trending_searches x) \<and> ''seasonal'' \<in> set (sources_used x)"
    if "collect max_workers completions month draws = Inr x" for x
    using that
  proof (rule collect_InrD)
    fix gathered used
    assume su: "sources_used x =
        (if ''seasonal'' \<notin> set used then used @ [''seasonal''] else used)"
      and ts: "trending_searches x = top_trends (gathered @ source_seasonal month draws)"
    have "\<exists>t \<in> set (gathered @ source_seasonal month draws). accepted (normalized t)"
      using seasonal_first_accepted [of month draws] by auto
    then have "top_trends (gathered @ source_seasonal month draws) \<noteq> []"
      by (rule top_trends_nonempty)
    then have "trending_searches x \<noteq> []" using ts by simp
    then have "1 \<le> length (trending_searches x)"
      by (cases "trending_searches x") simp_all
    moreover have "''seasonal'' \<in> set (sources_used x)" using su by simp
    ultimately show ?thesis by simp
  qed
  have b: "\<exists>res. collect max_workers completions month draws = Inr res"
    if "0 < max_workers" "Pending \<notin> snd ` set completions"
  proof -
    from gather_total [OF that(2), of "([], [])"] obtain g u
      where "gather completions ([], []) = Inr (g, u)" by force
    then show ?thesis using that(1) by (simp add: collect_def Let_def)
  qed
  from a b show ?thesis by blast
qed

theorem collect_never_empty_witness:
  "\<exists>res. collect 3 [(''pexels_api'', Returned []), (''unsplash'', Raised),
                     (''pytrends'', Returned [])] 11 (\<lambda>i. 0) = Inr res \<and>
     1 \<le> length (trending_searches res) \<and> ''seasonal'' \<in> set (sources_used res)"
  using collect_never_empty [of 3 "[(''pexels_api'', Returned []), (''unsplash'', Raised),
                     (''pytrends'', Returned [])]" 11 "\<lambda>i. 0"]
  by simp

text \<open>
  Claim C2 says that \<open>collect\<close> returns a result in every execution, also when the global
  timeout expires. On the code it does not: with one adapter still running after the
  180 seconds of \<open>as_completed\<close>, here the topic scraper, whose six pages with three
  tries of 25 seconds each can take longer, the \<open>for\<close> statement raises \<open>TimeoutError\<close>
  outside the \<open>try\<close> of its body and \<open>collect\<close> passes it on to its caller.
\<close>

theorem collect_global_timeout:
  "completion_order [(''pexels_api'', Returned []), (''pytrends'', Returned []),
                     (''unsplash'', Pending)] \<and>
   collect 3 [(''pexels_api'', Returned []), (''pytrends'', Returned []),
              (''unsplash'', Pending)] 11 (\<lambda>i. 0) = Inl TimeoutError"
  by (simp add: completion_order_def sources_def collect_def)

subsection \<open>Ranking\<close>

lemma sorted_reverse_descending: "sorted_wrt (\<lambda>a b. f b \<le> f a) (sorted_reverse f xs)"
proof -
  have "sorted (map f (sort_key f (rev xs)))" by (rule sorted_sort_key)
  then have "sorted_wrt (\<lambda>a b. f a \<le> f b) (sort_key f (rev xs))" by (simp add: sorted_map)
  then show ?thesis by (simp add: sorted_reverse_def sorted_wrt_rev)
qed

lemma mset_sorted_reverse: "mset (sorted_reverse f xs) = mset xs"
  by (simp add: sorted_reverse_def)

lemma set_sorted_reverse: "set (sorted_reverse f xs) = set xs"
  by (simp add: sorted_reverse_def)

lemma length_sorted_reverse: "length (sorted_reverse f xs) = length xs"
  by (simp add: sorted_reverse_def)

lemma sorted_reverse_stable:
  "filter (\<lambda>y. f y = k) (sorted_reverse f xs) = filter (\<lambda>y. f y = k) xs"
proof -
  have "filter (\<lambda>y. f y = k) (sorted_reverse f xs) =
        rev (filter (\<lambda>y. f y = k) (sort_key f (rev xs)))"
    by (simp add: sorted_reverse_def rev_filter)
  also have "\<dots> = rev (filter (\<lambda>y. f y = k) (rev xs))" by (simp only: sort_key_stable)
  also have "\<dots> = filter (\<lambda>y. f y = k) xs" by (simp add: rev_filter)
  finally show ?thesis .
qed

lemma prefix_filter_take: "prefix (filter P (take n xs)) (filter P xs)"
proof -
  have "filter P xs = filter P (take n xs) @ filter P (drop n xs)"
    by (metis append_take_drop_id filter_append)
  then show ?thesis by (metis prefixI)
qed

lemma rank_key_le:
  "rank_key b \<le> rank_key a \<longleftrightarrow>
     popularity b < popularity a \<or>
     (popularity b = popularity a \<and>
      length (py_split (keyword b)) \<le> length (py_split (keyword a)))"
  by (auto simp: rank_key_def)

text \<open>
  Claim C4, amended. \<open>trending_searches\<close> is \<open>top_trends\<close> of the merged list. It has at
  most 20 records; a later record never has a higher popularity than an earlier one,
  nor, at equal popularity, more words in its keyword. Records that are equal in both
  stand in the order of the values of \<open>unique\<close>, that is, in the order in which their
  keys were first inserted into \<open>unique\<close>: a record that replaced another under its key
  stands where the key was inserted, not where the record itself stood in the merged
  list. In particular, of two ranked records of equal popularity, the one with more
  words comes first.
\<close>

theorem ranking_sorted_stable:
  "length (top_trends ts) \<le> 20 \<and>
   (\<forall>i j. i < j \<and> j < length (top_trends ts) \<longrightarrow>
      popularity (top_trends ts ! j) < popularity (top_trends ts ! i) \<or>
      (popularity (top_trends ts ! j) = popularity (top_trends ts ! i) \<and>
       length (py_split (keyword (top_trends ts ! j))) \<le>
         length (py_split (keyword (top_trends ts ! i))))) \<and>
   (\<forall>k. prefix (filter (\<lambda>t. rank_key t = k) (top_trends ts))
               (filter (\<lambda>t. rank_key t = k) (map snd (dedup ts)))) \<and>
   map fst (dedup ts) =
     first_seen (map normalized (filter (\<lambda>t. accepted (normalized t)) ts)) \<and>
   (\<forall>i j. i < length (top_trends ts) \<and> j < length (top_trends ts) \<and>
      popularity (top_trends ts ! i) = popularity (top_trends ts ! j) \<and>
      length (py_split (keyword (top_trends ts ! j))) <
        length (py_split (keyword (top_trends ts ! i))) \<longrightarrow> i < j) \<and>
   (collect max_workers completions month draws = Inr r \<longrightarrow>
      (\<exists>gathered. trending_searches r = top_trends (gathered @ source_seasonal month draws)))"
proof -
  let ?top = "top_trends ts"
  have len: "length ?top \<le> 20" by (simp add: top_trends_def)
  have srt: "sorted_wrt (\<lambda>a b. rank_key b \<le> rank_key a) ?top"
    unfolding top_trends_def ranked_def
    by (intro sorted_wrt_take sorted_reverse_descending)
  have nth: "rank_key (?top ! j) \<le> rank_key (?top ! i)" if "i < j" "j < length ?top" for i j
    using sorted_wrt_nth_less [OF srt that] .
  have c2: "\<forall>i j. i < j \<and> j < length ?top \<longrightarrow>
      popularity (?top ! j) < popularity (?top ! i) \<or>
      (popularity (?top ! j) = popularity (?top ! i) \<and>
       length (py_split (keyword (?top ! j))) \<le> length (py_split (keyword (?top ! i))))"
    using nth by (simp add: rank_key_le)
  have c3: "\<forall>k. prefix (filter (\<lambda>t. rank_key t = k) ?top)
               (filter (\<lambda>t. rank_key t = k) (map snd (dedup ts)))"
  proof
    fix k
    have "prefix (filter (\<lambda>t. rank_key t = k) (take 20 (ranked (dedup ts))))
                 (filter (\<lambda>t. rank_key t = k) (ranked (dedup ts)))"
      by (rule prefix_filter_take)
    then show "prefix (filter (\<lambda>t. rank_key t = k) ?top)
               (filter (\<lambda>t. rank_key t = k) (map snd (dedup ts)))"
      by (simp add: top_trends_def ranked_def sorted_reverse_stable)
  qed
  have c4: "map fst (dedup ts) =
     first_seen (map normalized (filter (\<lambda>t. accepted (normalized t)) ts))"
    by (rule keys_dedup)
  have c5: "\<forall>i j. i < length ?top \<and> j < length ?top \<and>
      popularity (?top ! i) = popularity (?top ! j) \<and>
      length (py_split (keyword (?top ! j))) < length (py_split (keyword (?top ! i)))
      \<longrightarrow> i < j"
  proof (intro allI impI)
    fix i j
    assume h: "i < length ?top \<and> j < length ?top \<and>
      popularity (?top ! i) = popularity (?top ! j) \<and>
      length (py_split (keyword (?top ! j))) < length (py_split (keyword (?top ! i)))"
    show "i < j"
    proof (rule ccontr)
      assume "\<not> i < j"
      then consider "i = j" | "j < i" by linarith
      then show False
      proof cases
        case 1
        with h show False by simp
      next
        case 2
        with h have "rank_key (?top ! i) \<le> rank_key (?top ! j)" using nth by blast
        with h show False by (simp add: rank_key_le)
      qed
    qed
  qed
  have c6: "collect max_workers completions month draws = Inr r \<longrightarrow>
      (\<exists>gathered. trending_searches r = top_trends (gathered @ source_seasonal month draws))"
  proof
    assume "collect max_workers completions month draws = Inr r"
    then show "\<exists>gathered. trending_searches r =
        top_trends (gathered @ source_seasonal month draws)"
      by (rule collect_InrD) blast
  qed
  from len c2 c3 c4 c5 c6 show ?thesis by blast
qed

theorem ranking_sorted_stable_witness:
  "length (top_trends [\<lparr>keyword = ''office'', popularity = 90, category = ''business'',
                         source = ''pexels_api''\<rparr>,
                       \<lparr>keyword = ''remote work'', popularity = 90, category = ''business'',
                         source = ''pexels_api''\<rparr>]) \<le> 20 \<and>
   top_trends [\<lparr>keyword = ''office'', popularity = 90, category = ''business'',
                 source = ''pexels_api''\<rparr>,
               \<lparr>keyword = ''remote work'', popularity = 90, category = ''business'',
                 source = ''pexels_api''\<rparr>] =
     [\<lparr>keyword = ''remote work'', popularity = 90, category = ''business'',
        source = ''pexels_api''\<rparr>,
      \<lparr>keyword = ''office'', popularity = 90, category = ''business'',
        source = ''pexels_api''\<rparr>]"
proof -
  let ?b = "\<lparr>keyword = ''office'', popularity = 90, category = ''business'',
              source = ''pexels_api''\<rparr>"
  let ?a = "\<lparr>keyword = ''remote work'', popularity = 90, category = ''business'',
              source = ''pexels_api''\<rparr>"
  have e: "top_trends [?b, ?a] = [?a, ?b]" by code_simp
  from ranking_sorted_stable [where ts = "[?b, ?a]"]
  have "length (top_trends [?b, ?a]) \<le> 20" by blast
  with e show ?thesis by simp
qed

text \<open>
  Claim C4 as it is stated, with ties in the order of the merged list, fails. The
  adapters below return popularities that the scorer gives (84 - 1 for \<open>forest\<close> from
  unsplash_api, 85 + 1 for \<open>office\<close> and for \<open>forest\<close> from pexels_api). In the merged
  list the record \<open>office\<close> stands before the second record \<open>forest\<close>; the two are
  equal in popularity and word count; and the ranking has \<open>forest\<close> first, because it
  replaced the first record under a key that was inserted before \<open>office\<close>.
\<close>

theorem tie_order_is_not_merged_list_order:
  "score ''forest'' ''unsplash_api'' 1 = 83 \<and>
   score ''office'' ''pexels_api'' 3 = 86 \<and>
   score ''forest'' ''pexels_api'' 3 = 86 \<and>
   categorize ''forest'' = ''nature'' \<and>
   categorize ''office'' = ''business'' \<and>
   rank_key \<lparr>keyword = ''office'', popularity = 86, category = ''business'',
               source = ''pexels_api''\<rparr> =
   rank_key \<lparr>keyword = ''forest'', popularity = 86, category = ''nature'',
               source = ''pexels_api''\<rparr> \<and>
   top_trends [\<lparr>keyword = ''forest'', popularity = 83, category = ''nature'',
                 source = ''unsplash_api''\<rparr>,
               \<lparr>keyword = ''office'', popularity = 86, category = ''business'',
                 source = ''pexels_api''\<rparr>,
               \<lparr>keyword = ''forest'', popularity = 86, category = ''nature'',
                 source = ''pexels_api''\<rparr>] =
     [\<lparr>keyword = ''forest'', popularity = 86, category = ''nature'',
        source = ''pexels_api''\<rparr>,
      \<lparr>keyword = ''office'', popularity = 86, category = ''business'',
        source = ''pexels_api''\<rparr>]"
  by code_simp

subsection \<open>Seasonal records in the result\<close>

lemma busy_top: "top_trends (busy_run @ source_seasonal 11 (\<lambda>i. 0)) = busy_run"
  unfolding busy_run_def by code_simp

lemma busy_gather:
  "gather [(''pexels_api'', Returned busy_run), (''unsplash'', Returned []),
           (''pytrends'', Returned [])] ([], []) = Inr (busy_run, [''pexels_api''])"
  by (simp add: busy_run_def)

lemma busy_collect:
  "\<exists>res. collect 3 [(''pexels_api'', Returned busy_run), (''unsplash'', Returned []),
                     (''pytrends'', Returned [])] 11 (\<lambda>i. 0) = Inr res \<and>
     total_keywords_found res = 26 \<and> seasonal_trends res = []"
proof -
  have n: "filter (\<lambda>t. source t = ''seasonal'') busy_run = []"
    by (simp add: busy_run_def)
  have l: "length busy_run = 20" by (simp add: busy_run_def)
  have l6: "length (source_seasonal 11 (\<lambda>i. 0)) = 6" by (simp add: source_seasonal_unfold)
  have ne: "busy_run \<noteq> []" using l by auto
  show ?thesis
    by (simp add: collect_def busy_gather Let_def busy_top n l l6 ne)
qed

text \<open>
  Claim C10. In every result of \<open>collect\<close>, \<open>seasonal_trends\<close> is the subsequence of
  \<open>trending_searches\<close> of the records whose source is \<open>seasonal\<close>, hence a part of it.
  The seasonal fallback always adds six records to the merged list, and still
  \<open>seasonal_trends\<close> can be empty: in the execution where one adapter returns twenty
  records of popularity 99, no seasonal record is among the first twenty.
\<close>

theorem seasonal_trends_of_top:
  "(collect max_workers completions month draws = Inr r \<longrightarrow>
      seasonal_trends r = filter (\<lambda>t. source t = ''seasonal'') (trending_searches r) \<and>
      subseq (seasonal_trends r) (trending_searches r) \<and>
      set (seasonal_trends r) \<subseteq> set (trending_searches r)) \<and>
   length (source_seasonal month draws) = 6 \<and>
   completion_order [(''pexels_api'', Returned busy_run), (''unsplash'', Returned []),
                     (''pytrends'', Returned [])] \<and>
   (\<exists>res. collect 3 [(''pexels_api'', Returned busy_run), (''unsplash'', Returned []),
                      (''pytrends'', Returned [])] 11 (\<lambda>i. 0) = Inr res \<and>
      total_keywords_found res = 26 \<and> seasonal_trends res = [])"
proof -
  have a: "collect max_workers completions month draws = Inr r \<longrightarrow>
      seasonal_trends r = filter (\<lambda>t. source t = ''seasonal'') (trending_searches r) \<and>
      subseq (seasonal_trends r) (trending_searches r) \<and>
      set (seasonal_trends r) \<subseteq> set (trending_searches r)"
  proof
    assume "collect max_workers completions month draws = Inr r"
    then have e: "seasonal_trends r =
        filter (\<lambda>t. source t = ''seasonal'') (trending_searches r)"
      by (rule collect_InrD)
    then show "seasonal_trends r = filter (\<lambda>t. source t = ''seasonal'') (trending_searches r) \<and>
      subseq (seasonal_trends r) (trending_searches r) \<and>
      set (seasonal_trends r) \<subseteq> set (trending_searches r)"
      by (simp add: subseq_filter_left)
  qed
  have b: "length (source_seasonal month draws) = 6" by (simp add: source_seasonal_unfold)
  have c: "completion_order [(''pexels_api'', Returned busy_run), (''unsplash'', Returned []),
                     (''pytrends'', Returned [])]"
    by (simp add: completion_order_def sources_def)
  from a b c busy_collect show ?thesis by blast
qed

theorem seasonal_trends_of_top_witness:
  "\<exists>res. collect 3 [(''pexels_api'', Returned []), (''unsplash'', Raised),
                     (''pytrends'', Returned [])] 11 (\<lambda>i. 0) = Inr res \<and>
     seasonal_trends res = filter (\<lambda>t. source t = ''seasonal'') (trending_searches res) \<and>
     set (seasonal_trends res) \<subseteq> set (trending_searches res)"
proof -
  obtain res where r: "collect 3 [(''pexels_api'', Returned []), (''unsplash'', Raised),
                     (''pytrends'', Returned [])] 11 (\<lambda>i. 0) = Inr res"
    by (auto simp: collect_def Let_def)
  from seasonal_trends_of_top [of 3 "[(''pexels_api'', Returned []), (''unsplash'', Raised),
                     (''pytrends'', Returned [])]" 11 "\<lambda>i. 0" res] r
  show ?thesis by blast
qed

subsection \<open>Category summary: the loops and the specified summary\<close>

lemma map_of_tabulate:
  "map_of (map (\<lambda>k. (k, f k)) ks) k = (if k \<in> set ks then Some (f k) else None)"
  by (induction ks) auto

lemma tabulate_other:
  "k \<notin> set ks \<Longrightarrow>
   map (\<lambda>x. (x, if x = k then v else f x)) ks = map (\<lambda>x. (x, f x)) ks"
  by (induction ks) auto

lemma update_tabulate:
  "distinct ks \<Longrightarrow>
   AList.update k v (map (\<lambda>x. (x, f x)) ks) =
     map (\<lambda>x. (x, if x = k then v else f x)) (if k \<in> set ks then ks else ks @ [k])"
  by (induction ks) (auto simp: tabulate_other)

lemma entry_of_absent:
  "cat \<notin> category ` set tops \<Longrightarrow> entry_of tops cat = new_entry cat"
proof -
  assume "cat \<notin> category ` set tops"
  then have "group_of cat tops = []" by (auto simp: group_of_def filter_empty_conv)
  then show ?thesis by (simp add: entry_of_def new_entry_def)
qed

lemma group_of_snoc:
  "group_of cat (tops @ [t]) =
     (if category t = cat then group_of cat tops @ [t] else group_of cat tops)"
  by (simp add: group_of_def)

lemma entry_of_snoc_other: "category t \<noteq> cat \<Longrightarrow> entry_of (tops @ [t]) cat = entry_of tops cat"
  by (simp add: entry_of_def group_of_snoc)

lemma entry_of_snoc_same:
  "entry_of (tops @ [t]) (category t) =
     (entry_of tops (category t))
       \<lparr>count_n := count_n (entry_of tops (category t)) + 1,
        total_popularity := total_popularity (entry_of tops (category t)) + popularity t,
        top_keywords := top_keywords (entry_of tops (category t)) @
          [\<lparr>tk_keyword = keyword t, tk_popularity = popularity t\<rparr>]\<rparr>"
  by (simp add: entry_of_def group_of_snoc keyword_pair_def)

lemma categories_loop:
  "foldl add_trend [] tops =
     map (\<lambda>cat. (cat, entry_of tops cat)) (first_seen (map category tops))"
proof (induction tops rule: rev_induct)
  case Nil
  then show ?case by (simp add: first_seen_Nil)
next
  case (snoc t tops)
  let ?cats = "first_seen (map category tops)"
  let ?cat = "category t"
  have cur: "(case map_of (map (\<lambda>cat. (cat, entry_of tops cat)) ?cats) ?cat of
               Some c \<Rightarrow> c | None \<Rightarrow> new_entry ?cat) = entry_of tops ?cat"
    by (simp add: map_of_tabulate set_first_seen entry_of_absent)
  have "foldl add_trend [] (tops @ [t]) =
      AList.update ?cat (entry_of (tops @ [t]) ?cat)
        (map (\<lambda>cat. (cat, entry_of tops cat)) ?cats)"
    by (simp add: snoc.IH add_trend_def Let_def cur entry_of_snoc_same)
  also have "\<dots> = map (\<lambda>x. (x, if x = ?cat then entry_of (tops @ [t]) ?cat else entry_of tops x))
        (if ?cat \<in> set ?cats then ?cats else ?cats @ [?cat])"
    by (rule update_tabulate) (rule distinct_first_seen)
  also have "\<dots> = map (\<lambda>x. (x, entry_of (tops @ [t]) x))
        (if ?cat \<in> set ?cats then ?cats else ?cats @ [?cat])"
    by (rule map_cong) (auto simp: entry_of_snoc_other)
  also have "(if ?cat \<in> set ?cats then ?cats else ?cats @ [?cat]) =
        first_seen (map category (tops @ [t]))"
    by (simp add: first_seen_snoc set_first_seen)
  finally show ?case .
qed

lemma finish_entry_of:
  assumes "cat \<in> category ` set tops"
  shows "finish_entry (entry_of tops cat) = summary_spec tops cat"
proof -
  from assms have "group_of cat tops \<noteq> []" by (auto simp: group_of_def filter_empty_conv)
  then have "1 \<le> int (length (group_of cat tops))" by (cases "group_of cat tops") simp_all
  then have "max 1 (int (length (group_of cat tops))) = int (length (group_of cat tops))"
    by simp
  then show ?thesis
    by (simp add: finish_entry_def entry_of_def summary_spec_def Let_def)
qed

lemma categories_of_spec:
  "categories_of tops =
     map (\<lambda>cat. (cat, summary_spec tops cat)) (first_seen (map category tops))"
proof -
  have "categories_of tops =
      map (\<lambda>cat. (cat, finish_entry (entry_of tops cat))) (first_seen (map category tops))"
    by (simp add: categories_of_def categories_loop comp_def)
  also have "\<dots> = map (\<lambda>cat. (cat, summary_spec tops cat)) (first_seen (map category tops))"
    by (rule map_cong) (auto simp: set_first_seen finish_entry_of)
  finally show ?thesis .
qed

lemma mset_first_seen: "mset (first_seen xs) = mset_set (set xs)"
  using mset_set_set [of "first_seen xs"] by (simp add: distinct_first_seen set_first_seen)

lemma mset_ranked_categories:
  "mset (ranked_categories tops) =
     image_mset (summary_spec tops) (mset_set (category ` set tops))"
proof -
  have "mset (ranked_categories tops) =
      mset (map (summary_spec tops) (first_seen (map category tops)))"
    by (simp add: ranked_categories_def mset_sorted_reverse categories_of_spec comp_def)
  also have "\<dots> = image_mset (summary_spec tops) (mset (first_seen (map category tops)))"
    by simp
  also have "\<dots> = image_mset (summary_spec tops) (mset_set (category ` set tops))"
    by (simp only: mset_first_seen set_map)
  finally show ?thesis .
qed

lemma two_groups_cover:
  assumes "length tops = length (group_of a tops) + length (group_of b tops)" and "a \<noteq> b"
  shows "\<forall>t \<in> set tops. category t = a \<or> category t = b"
proof -
  let ?ys = "filter (\<lambda>t. category t \<noteq> a) tops"
  have "length tops = length (group_of a tops) + length ?ys"
    unfolding group_of_def by (rule sum_length_filter_compl [symmetric])
  with assms(1) have l: "length ?ys = length (group_of b tops)" by simp
  have "group_of b tops = filter (\<lambda>t. category t = b) ?ys"
    using assms(2) by (auto simp: group_of_def intro: filter_cong)
  with l have "length (filter (\<lambda>t. category t = b) ?ys) = length ?ys" by simp
  moreover have "length ?ys =
      length (filter (\<lambda>t. category t = b) ?ys) + length (filter (\<lambda>t. \<not> category t = b) ?ys)"
    by (rule sum_length_filter_compl [symmetric])
  ultimately have "filter (\<lambda>t. \<not> category t = b) ?ys = []" by simp
  then show ?thesis by (auto simp: filter_empty_conv)
qed

lemma two_groups_counts:
  assumes "length tops = 20" and "length (group_of a tops) = 12"
    and "length (group_of b tops) = 8"
  shows "mset (map count_n (ranked_categories tops)) = {#12, 8#}"
proof -
  have ab: "a \<noteq> b" using assms(2,3) by auto
  have cover: "\<forall>t \<in> set tops. category t = a \<or> category t = b"
    using assms ab by (intro two_groups_cover) simp_all
  have "group_of a tops \<noteq> []" "group_of b tops \<noteq> []" using assms(2,3) by auto
  then have "a \<in> category ` set tops" "b \<in> category ` set tops"
    by (auto simp: group_of_def filter_empty_conv)
  with cover have cats: "category ` set tops = {a, b}" by auto
  have "mset (map count_n (ranked_categories tops)) =
      image_mset count_n (mset (ranked_categories tops))" by simp
  also have "\<dots> = {#count_n (summary_spec tops a), count_n (summary_spec tops b)#}"
    using ab by (simp add: mset_ranked_categories cats)
  also have "\<dots> = {#12, 8#}"
    using assms(2,3) by (simp add: summary_spec_def Let_def)
  finally show ?thesis .
qed

text \<open>
  Claim C7. \<open>popular_categories\<close> is \<open>ranked_categories\<close> of \<open>trending_searches\<close>. As a
  multiset it holds the specified summary of each category that occurs in the ranked
  list, once each, so it has as many entries as there are categories. The summary of a
  category counts its records, averages their popularity (the exact quotient stands for
  the float) and lists its at most five most popular keywords in descending order of
  popularity. The entries are in descending order of the average. A list of twenty
  records, twelve of technology and eight of business, gives two entries, with the
  counts 12 and 8.
\<close>

theorem category_summary_correct:
  "mset (ranked_categories tops) =
     image_mset (summary_spec tops) (mset_set (category ` set tops)) \<and>
   length (ranked_categories tops) = card (category ` set tops) \<and>
   sorted_wrt (\<lambda>a b. avg_popularity b \<le> avg_popularity a) (ranked_categories tops) \<and>
   (\<forall>cat \<in> category ` set tops.
      name (summary_spec tops cat) = title cat \<and>
      count_n (summary_spec tops cat) = int (length (filter (\<lambda>t. category t = cat) tops)) \<and>
      avg_popularity (summary_spec tops cat) =
        of_int (sum_list (map popularity (filter (\<lambda>t. category t = cat) tops))) /
        of_int (int (length (filter (\<lambda>t. category t = cat) tops))) \<and>
      top_keywords (summary_spec tops cat) =
        take 5 (sorted_reverse tk_popularity
          (map keyword_pair (filter (\<lambda>t. category t = cat) tops))) \<and>
      length (top_keywords (summary_spec tops cat)) \<le> 5 \<and>
      sorted_wrt (\<lambda>a b. tk_popularity b \<le> tk_popularity a)
        (top_keywords (summary_spec tops cat))) \<and>
   (length tops = 20 \<and> length (filter (\<lambda>t. category t = ''technology'') tops) = 12 \<and>
    length (filter (\<lambda>t. category t = ''business'') tops) = 8 \<longrightarrow>
      length (ranked_categories tops) = 2 \<and>
      mset (map count_n (ranked_categories tops)) = {#12, 8#}) \<and>
   (collect max_workers completions month draws = Inr r \<longrightarrow>
      popular_categories r = ranked_categories (trending_searches r))"
proof -
  have c1: "mset (ranked_categories tops) =
     image_mset (summary_spec tops) (mset_set (category ` set tops))"
    by (rule mset_ranked_categories)
  have "size (mset (ranked_categories tops)) = card (category ` set tops)"
    by (simp only: c1 size_image_mset size_mset_set)
  then have c2: "length (ranked_categories tops) = card (category ` set tops)" by simp
  have c3: "sorted_wrt (\<lambda>a b. avg_popularity b \<le> avg_popularity a) (ranked_categories tops)"
    unfolding ranked_categories_def by (rule sorted_reverse_descending)
  have c4: "\<forall>cat \<in> category ` set tops.
      name (summary_spec tops cat) = title cat \<and>
      count_n (summary_spec tops cat) = int (length (filter (\<lambda>t. category t = cat) tops)) \<and>
      avg_popularity (summary_spec tops cat) =
        of_int (sum_list (map popularity (filter (\<lambda>t. category t = cat) tops))) /
        of_int (int (length (filter (\<lambda>t. category t = cat) tops))) \<and>
      top_keywords (summary_spec tops cat) =
        take 5 (sorted_reverse tk_popularity
          (map keyword_pair (filter (\<lambda>t. category t = cat) tops))) \<and>
      length (top_keywords (summary_spec tops cat)) \<le> 5 \<and>
      sorted_wrt (\<lambda>a b. tk_popularity b \<le> tk_popularity a)
        (top_keywords (summary_spec tops cat))"
    by (simp add: summary_spec_def Let_def group_of_def sorted_wrt_take
        sorted_reverse_descending)
  have c5: "length tops = 20 \<and> length (filter (\<lambda>t. category t = ''technology'') tops) = 12 \<and>
    length (filter (\<lambda>t. category t = ''business'') tops) = 8 \<longrightarrow>
      length (ranked_categories tops) = 2 \<and>
      mset (map count_n (ranked_categories tops)) = {#12, 8#}"
  proof
    assume h: "length tops = 20 \<and>
      length (filter (\<lambda>t. category t = ''technology'') tops) = 12 \<and>
      length (filter (\<lambda>t. category t = ''business'') tops) = 8"
    then have m: "mset (map count_n (ranked_categories tops)) = {#12, 8#}"
      by (intro two_groups_counts [where a = "''technology''" and b = "''business''"])
         (simp_all add: group_of_def)
    then have "size (mset (map count_n (ranked_categories tops))) = 2" by simp
    then have "length (ranked_categories tops) = 2" by simp
    with m show "length (ranked_categories tops) = 2 \<and>
      mset (map count_n (ranked_categories tops)) = {#12, 8#}" by simp
  qed
  have c6: "collect max_workers completions month draws = Inr r \<longrightarrow>
      popular_categories r = ranked_categories (trending_searches r)"
  proof
    assume "collect max_workers completions month draws = Inr r"
    then show "popular_categories r = ranked_categories (trending_searches r)"
      unfolding ranked_categories_def by (rule collect_InrD)
  qed
  from c1 c2 c3 c4 c5 c6 show ?thesis by blast
qed

theorem category_summary_correct_witness:
  "length (ranked_categories split_run) = 2 \<and>
   mset (map count_n (ranked_categories split_run)) = {#12, 8#} \<and>
   map (\<lambda>e. (name e, count_n e, avg_popularity e)) (ranked_categories split_run) =
     [(''Technology'', 12, 187 / 2), (''Business'', 8, 90)]"
proof -
  have h: "length split_run = 20 \<and>
      length (filter (\<lambda>t. category t = ''technology'') split_run) = 12 \<and>
      length (filter (\<lambda>t. category t = ''business'') split_run) = 8"
    by (simp add: split_run_def)
  have e: "map (\<lambda>e. (name e, count_n e, avg_popularity e)) (ranked_categories split_run) =
     [(''Technology'', 12, 187 / 2), (''Business'', 8, 90)]"
    by code_simp
  from category_summary_correct [where tops = split_run] h
  have "length (ranked_categories split_run) = 2 \<and>
      mset (map count_n (ranked_categories split_run)) = {#12, 8#}" by blast
  with e show ?thesis by simp
qed

subsection \<open>The pass under a change of the completion order\<close>

lemma isspace_lower_char: "isspace (lower_char c) = isspace c"
  by (auto simp: lower_char_def isspace_def split: option.splits dest!: map_of_SomeD)

lemma length_split_ws_lower:
  "(cur = []) = (cur' = []) \<Longrightarrow>
   length (split_ws cur (map lower_char s)) = length (split_ws cur' s)"
proof (induction s arbitrary: cur cur')
  case Nil
  then show ?case by simp
next
  case (Cons c s)
  show ?case
  proof (cases "isspace c")
    case True
    then show ?thesis
      using Cons.prems Cons.IH [of "[]" "[]"] by (simp add: isspace_lower_char)
  next
    case False
    then show ?thesis
      using Cons.IH [of "cur @ [lower_char c]" "cur' @ [c]"] by (simp add: isspace_lower_char)
  qed
qed

lemma split_ws_trailing: "isspace c \<Longrightarrow> split_ws cur (s @ [c]) = split_ws cur s"
  by (induction s arbitrary: cur) simp_all

lemma split_ws_rstrip: "split_ws cur (rev (dropWhile isspace (rev s))) = split_ws cur s"
proof (induction s arbitrary: cur rule: rev_induct)
  case Nil
  then show ?case by simp
next
  case (snoc c s)
  then show ?case by (cases "isspace c") (simp_all add: split_ws_trailing)
qed

lemma split_ws_lstrip: "split_ws [] (dropWhile isspace s) = split_ws [] s"
  by (induction s) simp_all

lemma py_split_strip: "py_split (strip s) = py_split s"
  by (simp add: py_split_def strip_def split_ws_rstrip split_ws_lstrip)

lemma word_count_normalized:
  "length (py_split (normalized t)) = length (py_split (keyword t))"
proof -
  have "length (py_split (normalized t)) = length (py_split (strip (keyword t)))"
    by (simp add: normalized_def lower_def py_split_def length_split_ws_lower)
  then show ?thesis by (simp add: py_split_strip)
qed

lemma unbeaten_tied:
  assumes "a \<in> set (unbeaten k ts)" and "b \<in> set (unbeaten k ts)"
  shows "popularity a = popularity b"
    and "source_priority (source a) = source_priority (source b)"
    and "rank_key a = rank_key b"
proof -
  from assms have c: "a \<in> set (candidates k ts)" "b \<in> set (candidates k ts)"
    using unbeaten_subset by blast+
  from unbeaten_max [OF assms(1) c(2)] unbeaten_max [OF assms(2) c(1)]
  have nb: "\<not> beats b a" "\<not> beats a b" .
  then show p: "popularity a = popularity b"
    and "source_priority (source a) = source_priority (source b)"
    by (auto simp: beats_def)
  from c have "normalized a = normalized b" by (simp add: candidates_def)
  then have "length (py_split (keyword a)) = length (py_split (keyword b))"
    by (metis word_count_normalized)
  with p show "rank_key a = rank_key b" by (simp add: rank_key_def)
qed

lemma mset_candidates:
  "mset xs = mset ys \<Longrightarrow> mset (candidates k xs) = mset (candidates k ys)"
  by (simp add: candidates_def)

lemma mset_unbeaten:
  assumes "mset xs = mset ys"
  shows "mset (unbeaten k xs) = mset (unbeaten k ys)"
proof -
  have m: "mset (candidates k xs) = mset (candidates k ys)"
    using assms by (rule mset_candidates)
  then have s: "set (candidates k xs) = set (candidates k ys)" by (rule mset_eq_setD)
  show ?thesis
    by (simp add: unbeaten_def list_all_iff s m)
qed

lemma survivor_in_unbeaten: "survivor k ts = Some v \<Longrightarrow> v \<in> set (unbeaten k ts)"
  by (auto simp: survivor_def split: if_splits list.splits)

lemma survivor_defined_perm:
  assumes "mset xs = mset ys" and "survivor k xs = Some v"
  obtains w where "survivor k ys = Some w" and "w \<in> set (unbeaten k xs)"
proof -
  from assms(2) have acc: "accepted k" by (simp add: survivor_def split: if_splits)
  from assms(2) have "v \<in> set (unbeaten k xs)" by (rule survivor_in_unbeaten)
  then have "unbeaten k xs \<noteq> []" by auto
  moreover have m: "mset (unbeaten k xs) = mset (unbeaten k ys)"
    using assms(1) by (rule mset_unbeaten)
  ultimately have "unbeaten k ys \<noteq> []" by auto
  then obtain w r where u: "unbeaten k ys = w # r" by (cases "unbeaten k ys") auto
  then have "survivor k ys = Some w" using acc by (simp add: survivor_def)
  moreover have "w \<in> set (unbeaten k xs)"
    using u mset_eq_setD [OF m] by auto
  ultimately show ?thesis using that by blast
qed

lemma alist_values:
  "distinct (map fst al) \<Longrightarrow> map snd al = map (\<lambda>k. the (map_of al k)) (map fst al)"
proof (induction al)
  case Nil
  then show ?case by simp
next
  case (Cons p al)
  have other: "map_of (p # al) k = map_of al k" if "k \<in> set (map fst al)" for k
    using that Cons.prems by (cases p) auto
  have "map (\<lambda>k. the (map_of (p # al) k)) (map fst al) =
      map (\<lambda>k. the (map_of al k)) (map fst al)"
    by (rule map_cong) (simp_all only: other)
  moreover have "map snd al = map (\<lambda>k. the (map_of al k)) (map fst al)"
    using Cons by simp
  ultimately show ?case by (cases p) simp
qed

lemma values_dedup:
  "map snd (dedup ts) = map (\<lambda>k. the (survivor k ts)) (map fst (dedup ts))"
  using alist_values [OF distinct_keys_dedup [of ts]] by (simp only: map_of_dedup)

lemma mset_keys_dedup: "mset (map fst (dedup ts)) = mset_set (fst ` set (dedup ts))"
  using mset_set_set [OF distinct_keys_dedup [of ts]] by simp

lemma keys_dedup_perm:
  "mset xs = mset ys \<Longrightarrow> fst ` set (dedup xs) = fst ` set (dedup ys)"
  using mset_eq_setD [of xs ys] by (simp add: set_keys_dedup)

lemma key_has_survivor:
  "k \<in> fst ` set (dedup ts) \<Longrightarrow> \<exists>v. survivor k ts = Some v"
  by (auto simp: dedup_entry)

lemma mset_rank_keys_perm:
  assumes "mset xs = mset ys"
  shows "mset (map rank_key (map snd (dedup xs))) = mset (map rank_key (map snd (dedup ys)))"
proof -
  let ?K = "fst ` set (dedup xs)"
  have K: "fst ` set (dedup ys) = ?K" using assms by (rule keys_dedup_perm [symmetric])
  have eq: "rank_key (the (survivor k xs)) = rank_key (the (survivor k ys))" if "k \<in> ?K" for k
  proof -
    from that obtain v where v: "survivor k xs = Some v" using key_has_survivor by blast
    from survivor_defined_perm [OF assms v] obtain w
      where w: "survivor k ys = Some w" "w \<in> set (unbeaten k xs)" by blast
    from v have "v \<in> set (unbeaten k xs)" by (rule survivor_in_unbeaten)
    from unbeaten_tied(3) [OF this w(2)] have "rank_key v = rank_key w" .
    with v w(1) show ?thesis by simp
  qed
  have vals: "map rank_key (map snd (dedup ts)) =
      map (\<lambda>k. rank_key (the (survivor k ts))) (map fst (dedup ts))" for ts
    by (simp only: values_dedup map_map comp_def)
  have "mset (map rank_key (map snd (dedup xs))) =
      image_mset (\<lambda>k. rank_key (the (survivor k xs))) (mset (map fst (dedup xs)))"
    by (simp only: vals mset_map)
  also have "\<dots> = image_mset (\<lambda>k. rank_key (the (survivor k xs))) (mset_set ?K)"
    by (simp only: mset_keys_dedup)
  also have "\<dots> = image_mset (\<lambda>k. rank_key (the (survivor k ys))) (mset_set ?K)"
    by (rule image_mset_cong) (simp add: eq)
  also have "\<dots> = image_mset (\<lambda>k. rank_key (the (survivor k ys))) (mset (map fst (dedup ys)))"
    by (simp only: mset_keys_dedup K)
  also have "\<dots> = mset (map rank_key (map snd (dedup ys)))"
    by (simp only: vals mset_map)
  finally show ?thesis .
qed

lemma map_sort_key: "map f (sort_key f xs) = sort (map f xs)"
  by (rule properties_for_sort [symmetric]) simp_all

lemma map_sorted_reverse: "map f (sorted_reverse f xs) = rev (sort (map f (rev xs)))"
proof -
  have "map f (sorted_reverse f xs) = rev (map f (sort_key f (rev xs)))"
    by (simp add: sorted_reverse_def rev_map)
  then show ?thesis by (simp only: map_sort_key)
qed

lemma sort_perm: "mset xs = mset ys \<Longrightarrow> sort xs = sort ys"
  by (rule properties_for_sort) simp_all

lemma rank_keys_perm:
  assumes "mset xs = mset ys"
  shows "map rank_key (top_trends xs) = map rank_key (top_trends ys)"
proof -
  have "mset (map rank_key (rev (map snd (dedup xs)))) =
        mset (map rank_key (rev (map snd (dedup ys))))"
    using mset_rank_keys_perm [OF assms] by (simp only: mset_map mset_rev)
  then have "sort (map rank_key (rev (map snd (dedup xs)))) =
        sort (map rank_key (rev (map snd (dedup ys))))"
    by (rule sort_perm)
  then have "map rank_key (ranked (dedup xs)) = map rank_key (ranked (dedup ys))"
    by (simp add: ranked_def map_sorted_reverse)
  then show ?thesis by (simp add: top_trends_def take_map [symmetric])
qed


lemma survivors_perm:
  assumes "mset xs = mset ys"
    and "\<forall>a \<in> set xs. \<forall>b \<in> set xs.
           normalized a = normalized b \<and> popularity a = popularity b \<and>
           source_priority (source a) = source_priority (source b) \<longrightarrow> a = b"
  shows "mset (map snd (dedup xs)) = mset (map snd (dedup ys))"
proof -
  let ?K = "fst ` set (dedup xs)"
  have K: "fst ` set (dedup ys) = ?K" using assms(1) by (rule keys_dedup_perm [symmetric])
  have eq: "the (survivor k xs) = the (survivor k ys)" if "k \<in> ?K" for k
  proof -
    from that obtain v where v: "survivor k xs = Some v" using key_has_survivor by blast
    from survivor_defined_perm [OF assms(1) v] obtain w
      where w: "survivor k ys = Some w" "w \<in> set (unbeaten k xs)" by blast
    from v have vu: "v \<in> set (unbeaten k xs)" by (rule survivor_in_unbeaten)
    from vu w(2) have "v \<in> set (candidates k xs)" "w \<in> set (candidates k xs)"
      using unbeaten_subset by blast+
    then have "v \<in> set xs" "w \<in> set xs" "normalized v = normalized w"
      by (simp_all add: candidates_def)
    moreover have "popularity v = popularity w"
      "source_priority (source v) = source_priority (source w)"
      using unbeaten_tied(1,2) [OF vu w(2)] by simp_all
    ultimately have "v = w" using assms(2) by blast
    with v w(1) show ?thesis by simp
  qed
  have "mset (map snd (dedup xs)) =
      image_mset (\<lambda>k. the (survivor k xs)) (mset (map fst (dedup xs)))"
    by (simp only: values_dedup mset_map)
  also have "\<dots> = image_mset (\<lambda>k. the (survivor k xs)) (mset_set ?K)"
    by (simp only: mset_keys_dedup)
  also have "\<dots> = image_mset (\<lambda>k. the (survivor k ys)) (mset_set ?K)"
    by (rule image_mset_cong) (simp add: eq)
  also have "\<dots> = image_mset (\<lambda>k. the (survivor k ys)) (mset (map fst (dedup ys)))"
    by (simp only: mset_keys_dedup K)
  also have "\<dots> = mset (map snd (dedup ys))"
    by (simp only: values_dedup mset_map)
  finally show ?thesis .
qed

lemma top_trends_perm:
  assumes "mset xs = mset ys"
    and "\<forall>a \<in> set xs. \<forall>b \<in> set xs.
           normalized a = normalized b \<and> popularity a = popularity b \<and>
           source_priority (source a) = source_priority (source b) \<longrightarrow> a = b"
    and "inj_on rank_key (snd ` set (dedup xs))"
  shows "top_trends xs = top_trends ys"
proof -
  let ?vx = "map snd (dedup xs)" and ?vy = "map snd (dedup ys)"
  have m: "mset ?vx = mset ?vy" using assms(1,2) by (rule survivors_perm)
  have "sort_key rank_key (rev ?vx) = sort_key rank_key (rev ?vy)"
  proof (rule sort_key_inj_key_eq)
    show "mset (rev ?vx) = mset (sort_key rank_key (rev ?vy))"
      using m by (simp only: mset_rev mset_sort)
    show "inj_on rank_key (set (rev ?vx))" using assms(3) by simp
    show "sorted (map rank_key (sort_key rank_key (rev ?vy)))" by (rule sorted_sort_key)
  qed
  then show ?thesis by (simp only: top_trends_def ranked_def sorted_reverse_def)
qed

lemma mset_concat_sum: "mset (concat bs) = sum_mset (image_mset mset (mset bs))"
  by (induction bs) simp_all

lemma permuted_sublists: "mset bs = mset cs \<Longrightarrow> mset (concat bs) = mset (concat cs)"
  by (simp only: mset_concat_sum)

text \<open>
  Claim C9 as it is stated fails: two adapters that each return one record, of equal
  popularity and word count and with different keywords, give a ranking that starts
  with the record of the adapter that completed first.
\<close>

theorem rank_order_depends_on_completion_order:
  "mset ([\<lparr>keyword = ''office'', popularity = 90, category = ''business'',
            source = ''pexels_api''\<rparr>] @
         [\<lparr>keyword = ''market'', popularity = 90, category = ''business'',
            source = ''unsplash_api''\<rparr>]) =
   mset ([\<lparr>keyword = ''market'', popularity = 90, category = ''business'',
            source = ''unsplash_api''\<rparr>] @
         [\<lparr>keyword = ''office'', popularity = 90, category = ''business'',
            source = ''pexels_api''\<rparr>]) \<and>
   top_trends ([\<lparr>keyword = ''office'', popularity = 90, category = ''business'',
                  source = ''pexels_api''\<rparr>] @
               [\<lparr>keyword = ''market'', popularity = 90, category = ''business'',
                  source = ''unsplash_api''\<rparr>]) \<noteq>
   top_trends ([\<lparr>keyword = ''market'', popularity = 90, category = ''business'',
                  source = ''unsplash_api''\<rparr>] @
               [\<lparr>keyword = ''office'', popularity = 90, category = ''business'',
                  source = ''pexels_api''\<rparr>])"
proof -
  let ?a = "\<lparr>keyword = ''office'', popularity = 90, category = ''business'',
              source = ''pexels_api''\<rparr>"
  let ?b = "\<lparr>keyword = ''market'', popularity = 90, category = ''business'',
              source = ''unsplash_api''\<rparr>"
  have 1: "top_trends ([?a] @ [?b]) = [?a, ?b]" by code_simp
  have 2: "top_trends ([?b] @ [?a]) = [?b, ?a]" by code_simp
  have "mset ([?a] @ [?b]) = mset ([?b] @ [?a])" by simp
  moreover have "top_trends ([?a] @ [?b]) \<noteq> top_trends ([?b] @ [?a])"
    unfolding 1 2 by simp
  ultimately show ?thesis by blast
qed

text \<open>
  Claim C9, amended. For two orders of the same candidate records, in particular for
  every permutation of the lists of the adapters, the pass yields the same sequence of
  pairs (popularity, word count); and it yields the same \<open>trending_searches\<close> when no two
  distinct candidates with the same key agree in popularity and source priority and
  no two surviving records agree in popularity and word count.
\<close>

theorem rank_permutation:
  "(mset xs = mset ys \<longrightarrow>
      map rank_key (top_trends xs) = map rank_key (top_trends ys)) \<and>
   (mset xs = mset ys \<and>
    (\<forall>a \<in> set xs. \<forall>b \<in> set xs.
        normalized a = normalized b \<and> popularity a = popularity b \<and>
        source_priority (source a) = source_priority (source b) \<longrightarrow> a = b) \<and>
    inj_on rank_key (snd ` set (dedup xs)) \<longrightarrow>
      top_trends xs = top_trends ys)"
  using rank_keys_perm [of xs ys] top_trends_perm [of xs ys] by blast

theorem rank_permutation_witness:
  "top_trends ([\<lparr>keyword = ''office'', popularity = 90, category = ''business'',
                  source = ''pexels_api''\<rparr>] @
               [\<lparr>keyword = ''market'', popularity = 85, category = ''business'',
                  source = ''unsplash_api''\<rparr>]) =
   top_trends ([\<lparr>keyword = ''market'', popularity = 85, category = ''business'',
                  source = ''unsplash_api''\<rparr>] @
               [\<lparr>keyword = ''office'', popularity = 90, category = ''business'',
                  source = ''pexels_api''\<rparr>])"
proof -
  let ?a = "\<lparr>keyword = ''office'', popularity = 90, category = ''business'',
              source = ''pexels_api''\<rparr>"
  let ?c = "\<lparr>keyword = ''market'', popularity = 85, category = ''business'',
              source = ''unsplash_api''\<rparr>"
  have d: "dedup ([?a] @ [?c]) = [(''office'', ?a), (''market'', ?c)]" by code_simp
  have i: "inj_on rank_key (snd ` set (dedup ([?a] @ [?c])))"
    unfolding d by (simp add: rank_key_def)
  have h: "\<forall>a \<in> set ([?a] @ [?c]). \<forall>b \<in> set ([?a] @ [?c]).
        normalized a = normalized b \<and> popularity a = popularity b \<and>
        source_priority (source a) = source_priority (source b) \<longrightarrow> a = b"
    by simp
  have m: "mset ([?a] @ [?c]) = mset ([?c] @ [?a])" by simp
  from rank_permutation [of "[?a] @ [?c]" "[?c] @ [?a]"] m h i
  show ?thesis by blast
qed

end
